theory Spec2Isabelle
  imports Main
begin

section \<open>JavaScript strings, arrays and sets\<close>

text \<open>
  A JavaScript string is modelled as a \<^typ>\<open>string\<close>: a list of characters, each one
  code unit in the range U+0000..U+00FF. An array is a list. A \<open>Set\<close> is a list
  without repetition in insertion order, which is also the order a \<open>for ... of\<close> loop
  visits it in.
\<close>

definition charIn :: "char \<Rightarrow> char \<Rightarrow> char \<Rightarrow> bool" where
  \<comment> \<open>the range \<open>lo-hi\<close> of a character class\<close>
  "charIn lo hi c = ((of_char lo :: nat) \<le> of_char c \<and> (of_char c :: nat) \<le> of_char hi)"

definition isLower :: "char \<Rightarrow> bool" where
  \<comment> \<open>\<open>[a-z]\<close>\<close>
  "isLower c = charIn CHR ''a'' CHR ''z'' c"

definition isLowerDigit :: "char \<Rightarrow> bool" where
  \<comment> \<open>\<open>[a-z0-9]\<close>\<close>
  "isLowerDigit c = (charIn CHR ''a'' CHR ''z'' c \<or> charIn CHR ''0'' CHR ''9'' c)"

definition isLabelChar :: "char \<Rightarrow> bool" where
  \<comment> \<open>\<open>[a-z0-9-]\<close>\<close>
  "isLabelChar c = (charIn CHR ''a'' CHR ''z'' c \<or> charIn CHR ''0'' CHR ''9'' c \<or> c = CHR ''-'')"

definition isWordChar :: "char \<Rightarrow> bool" where
  \<comment> \<open>\<open>\w\<close>, the class \<open>\b\<close> is defined by: \<open>[A-Za-z0-9_]\<close>\<close>
  "isWordChar c = (charIn CHR ''a'' CHR ''z'' c \<or> charIn CHR ''A'' CHR ''Z'' c
     \<or> charIn CHR ''0'' CHR ''9'' c \<or> c = CHR ''_'')"

definition isSpace :: "char \<Rightarrow> bool" where
  \<comment> \<open>\<open>\s\<close>, and what \<open>trim\<close> strips: tab, line feed, vertical tab, form feed,
      carriage return, space and the no-break space U+00A0 (the white space and line
      terminators below U+0100)\<close>
  "isSpace c = ((of_char c :: nat) \<in> {9, 10, 11, 12, 13, 32, 160})"

fun split_on :: "char \<Rightarrow> string \<Rightarrow> string list" where
  \<comment> \<open>\<open>s.split(c)\<close> for a one-character separator: never empty, \<open>"".split(".")\<close> is \<open>[""]\<close>\<close>
  "split_on c [] = [[]]"
| "split_on c (x # xs) =
     (let parts = split_on c xs
      in if x = c then [] # parts else (x # hd parts) # tl parts)"

fun join_with :: "string \<Rightarrow> string list \<Rightarrow> string" where
  \<comment> \<open>\<open>parts.join(sep)\<close>\<close>
  "join_with sep [] = []"
| "join_with sep [p] = p"
| "join_with sep (p # q # ps) = p @ sep @ join_with sep (q # ps)"

definition startsWith :: "string \<Rightarrow> string \<Rightarrow> bool" where
  \<comment> \<open>\<open>s.startsWith(p)\<close>\<close>
  "startsWith s p = (take (length p) s = p)"

definition trim :: "string \<Rightarrow> string" where
  \<comment> \<open>\<open>s.trim()\<close>\<close>
  "trim s = rev (dropWhile isSpace (rev (dropWhile isSpace s)))"

fun removeFirst :: "string \<Rightarrow> string \<Rightarrow> string" where
  \<comment> \<open>\<open>s.replace(pat, "")\<close> for a string pattern: only the first occurrence goes\<close>
  "removeFirst pat [] = []"
| "removeFirst pat (c # cs) =
     (if take (length pat) (c # cs) = pat then drop (length pat) (c # cs)
      else c # removeFirst pat cs)"

definition Set_add :: "'a list \<Rightarrow> 'a \<Rightarrow> 'a list" where
  \<comment> \<open>\<open>set.add(x)\<close>: a value already present keeps its place\<close>
  "Set_add s x = (if x \<in> set s then s else s @ [x])"

definition Set_new :: "'a list \<Rightarrow> 'a list" where
  \<comment> \<open>\<open>new Set(iterable)\<close>\<close>
  "Set_new xs = foldl Set_add [] xs"

definition digitChar :: "nat \<Rightarrow> char" where
  "digitChar d = char_of (of_char CHR ''0'' + d)"

fun showNat :: "nat \<Rightarrow> string" where
  \<comment> \<open>\<open>String(n)\<close> for a number that is a natural number below \<open>10^21\<close>: its decimal
      digits (from \<open>10^21\<close> on JavaScript prints the exponent form, which is not modelled)\<close>
  "showNat n = (if n < 10 then [digitChar n] else showNat (n div 10) @ [digitChar (n mod 10)])"

declare showNat.simps [simp del]

definition sliceOffEnd :: "nat \<Rightarrow> string \<Rightarrow> string" where
  \<comment> \<open>\<open>s.slice(0, -k)\<close>: all but the last \<open>k\<close> characters, nothing when there are fewer\<close>
  "sliceOffEnd k s = take (length s - k) s"

section \<open>Regular expressions\<close>

text \<open>
  A regular expression is embedded as a backtracking matcher. A cursor is the character
  before the current position (\<open>None\<close> at index 0) and the rest of the input; a matcher
  maps a cursor to the cursors it can end at, in the order the engine tries them
  (a greedy quantifier tries the longer match first, an alternation its left side).
\<close>

type_synonym cursor = "char option \<times> string"
type_synonym matcher = "cursor \<Rightarrow> cursor list"

definition re_eps :: matcher where
  \<comment> \<open>the empty expression\<close>
  "re_eps x = [x]"

fun re_class :: "(char \<Rightarrow> bool) \<Rightarrow> matcher" where
  \<comment> \<open>a character class\<close>
  "re_class P (prev, []) = []"
| "re_class P (prev, c # r) = (if P c then [(Some c, r)] else [])"

definition re_chr :: "char \<Rightarrow> matcher" where
  \<comment> \<open>one literal character\<close>
  "re_chr c x = re_class (\<lambda>k. k = c) x"

definition re_seq :: "matcher \<Rightarrow> matcher \<Rightarrow> matcher" where
  \<comment> \<open>\<open>m1\<close> followed by \<open>m2\<close>\<close>
  "re_seq m1 m2 x = concat (map m2 (m1 x))"

fun re_lit :: "string \<Rightarrow> matcher" where
  \<comment> \<open>a literal string\<close>
  "re_lit [] x = [x]"
| "re_lit (c # cs) x = concat (map (re_lit cs) (re_chr c x))"

definition re_alt :: "matcher \<Rightarrow> matcher \<Rightarrow> matcher" where
  \<comment> \<open>\<open>m1|m2\<close>\<close>
  "re_alt m1 m2 x = m1 x @ m2 x"

definition re_opt :: "matcher \<Rightarrow> matcher" where
  \<comment> \<open>\<open>m?\<close>\<close>
  "re_opt m x = m x @ [x]"

fun re_times :: "nat \<Rightarrow> matcher \<Rightarrow> matcher" where
  \<comment> \<open>\<open>m{n}\<close>\<close>
  "re_times 0 m x = [x]"
| "re_times (Suc n) m x = concat (map (re_times n m) (m x))"

fun re_upto :: "nat \<Rightarrow> matcher \<Rightarrow> matcher" where
  \<comment> \<open>\<open>m{0,n}\<close>, greedy\<close>
  "re_upto 0 m x = [x]"
| "re_upto (Suc n) m x = concat (map (re_upto n m) (m x)) @ [x]"

definition re_range :: "nat \<Rightarrow> nat \<Rightarrow> matcher \<Rightarrow> matcher" where
  \<comment> \<open>\<open>m{lo,hi}\<close>\<close>
  "re_range lo hi m x = concat (map (re_upto (hi - lo) m) (re_times lo m x))"

definition re_star :: "matcher \<Rightarrow> matcher" where
  \<comment> \<open>\<open>m*\<close>: an iteration that consumes nothing ends the repetition, so as many
      iterations as characters are left are enough\<close>
  "re_star m x = re_upto (length (snd x)) m x"

definition re_plus :: "matcher \<Rightarrow> matcher" where
  \<comment> \<open>\<open>m+\<close>\<close>
  "re_plus m x = concat (map (re_star m) (m x))"

definition re_lookahead :: "matcher \<Rightarrow> matcher" where
  \<comment> \<open>\<open>(?=m)\<close>\<close>
  "re_lookahead m x = (if m x = [] then [] else [x])"

definition re_bol :: matcher where
  \<comment> \<open>\<open>^\<close> without the multiline flag\<close>
  "re_bol x = (if fst x = None then [x] else [])"

definition re_eol :: matcher where
  \<comment> \<open>\<open>$\<close> without the multiline flag\<close>
  "re_eol x = (if snd x = [] then [x] else [])"

fun isWordBefore :: "char option \<Rightarrow> bool" where
  "isWordBefore None = False"
| "isWordBefore (Some c) = isWordChar c"

fun isWordAfter :: "string \<Rightarrow> bool" where
  "isWordAfter [] = False"
| "isWordAfter (c # r) = isWordChar c"

definition re_wordb :: matcher where
  \<comment> \<open>\<open>\b\<close>: exactly one side of the position is a word character\<close>
  "re_wordb x = (if isWordBefore (fst x) \<noteq> isWordAfter (snd x) then [x] else [])"

definition re_test :: "matcher \<Rightarrow> string \<Rightarrow> bool" where
  \<comment> \<open>\<open>re.test(s)\<close> for an expression anchored with \<open>^\<close>: only index 0 can match\<close>
  "re_test m s = (m (None, s) \<noteq> [])"

fun re_removeFirst :: "matcher \<Rightarrow> char option \<Rightarrow> string \<Rightarrow> string" where
  \<comment> \<open>\<open>s.replace(re, "")\<close> without the global flag: the leftmost match goes, and at
      that index the match the engine finds first\<close>
  "re_removeFirst m prev [] = (case m (prev, []) of [] \<Rightarrow> [] | y # ys \<Rightarrow> snd y)"
| "re_removeFirst m prev (c # cs) =
     (case m (prev, c # cs) of [] \<Rightarrow> c # re_removeFirst m (Some c) cs | y # ys \<Rightarrow> snd y)"

section \<open>lib/utils.js and lib/helpers.js\<close>

definition domainLabel :: matcher where
  \<comment> \<open>\<open>((?=[a-z0-9-]{1,63}\.)(xn--)?[a-z0-9]+(-[a-z0-9]+)*\.)\<close>\<close>
  "domainLabel x =
     re_seq (re_lookahead (re_seq (re_range 1 63 (re_class isLabelChar)) (re_chr CHR ''.'')))
       (re_seq (re_opt (re_lit ''xn--''))
         (re_seq (re_plus (re_class isLowerDigit))
           (re_seq (re_star (re_seq (re_chr CHR ''-'') (re_plus (re_class isLowerDigit))))
             (re_chr CHR ''.'')))) x"

definition domainRegex :: matcher where
  \<comment> \<open>\<open>/^\b((?=[a-z0-9-]{1,63}\.)(xn--)?[a-z0-9]+(-[a-z0-9]+)*\.)+[a-z]{2,63}\b$/\<close>\<close>
  "domainRegex x =
     re_seq re_bol (re_seq re_wordb (re_seq (re_plus domainLabel)
       (re_seq (re_range 2 63 (re_class isLower)) (re_seq re_wordb re_eol)))) x"

definition isValidDomain :: "string \<Rightarrow> bool" where
  "isValidDomain v = re_test domainRegex v"

definition extractDomain :: "string \<Rightarrow> string list" where
  \<comment> \<open>the loop over \<open>i\<close> unshifts \<open>parts.slice(i).join(".")\<close>: the last part comes first
      in the result and the domain itself last\<close>
  "extractDomain domain =
     (let parts = split_on CHR ''.'' domain
      in foldl (\<lambda>extractedDomains i. join_with ''.'' (drop i parts) # extractedDomains)
           [] [0..<length parts])"

definition isComment :: "string \<Rightarrow> bool" where
  "isComment v = (startsWith v ''#'' \<or> startsWith v ''//'' \<or> startsWith v ''!''
     \<or> startsWith v ''/*'' \<or> startsWith v ''*/'')"

definition ipPrefix :: matcher where
  \<comment> \<open>\<open>/(0\.0\.0\.0|127\.0\.0\.1|::1|::)\s+/\<close>\<close>
  "ipPrefix x =
     re_seq (re_alt (re_lit ''0.0.0.0'') (re_alt (re_lit ''127.0.0.1'')
               (re_alt (re_lit ''::1'') (re_lit ''::''))))
       (re_plus (re_class isSpace)) x"

definition normalizeDomain :: "string \<Rightarrow> bool \<Rightarrow> string" where
  "normalizeDomain v isAllowlisting =
     (let init = (if isAllowlisting then removeFirst ''@@||'' v else v);
          normalized =
            removeFirst ''^'' (removeFirst ''*.'' (removeFirst ''^$important''
              (removeFirst ''||'' (re_removeFirst ipPrefix None init))))
      in normalized)"

section \<open>lib/constants.js\<close>

definition LIST_ITEM_SIZE :: int where
  "LIST_ITEM_SIZE = 1000"

text \<open>
  \<open>LIST_ITEM_LIMIT\<close> is imported from lib/constants.js by update_filter_lists.js, and its
  declaration is not among the files at hand (the worker's README gives 300,000 as the
  default of \<open>CLOUDFLARE_LIST_ITEM_LIMIT\<close>). It is a parameter of every definition that
  reads it. Both constants are JavaScript numbers: \<^typ>\<open>int\<close>, so that
  \<open>LIST_ITEM_LIMIT - LIST_ITEM_SIZE\<close> can be negative, as it can in the program.
\<close>

section \<open>update_filter_lists.js: the loop over the raw blocklist\<close>

record loop_state =
  blocklist :: "string list"  \<comment> \<open>\<open>const blocklist = new Set()\<close>\<close>
  domains :: "string list"  \<comment> \<open>\<open>const domains = []\<close>\<close>
  processed :: nat  \<comment> \<open>\<open>stats.processed\<close>\<close>
  duplicates :: nat  \<comment> \<open>\<open>stats.duplicates\<close>\<close>
  allowed :: nat  \<comment> \<open>\<open>stats.allowed\<close>\<close>

definition initialState :: loop_state where
  "initialState = \<lparr>blocklist = [], domains = [], processed = 0, duplicates = 0, allowed = 0\<rparr>"

fun checkItems :: "string list \<Rightarrow> string list \<Rightarrow> loop_state \<Rightarrow> bool \<times> loop_state" where
  \<comment> \<open>the inner \<open>for (const item of ...)\<close> loop; the flag returned is \<open>isOk\<close>\<close>
  "checkItems allowlist [] st = (True, st)"
| "checkItems allowlist (item # items) st =
     (if item \<in> set allowlist then (False, st\<lparr>allowed := allowed st + 1\<rparr>)
      else if item \<notin> set (blocklist st) then checkItems allowlist items st
      else (False, st\<lparr>duplicates := duplicates st + 1\<rparr>))"

definition processDomain :: "int \<Rightarrow> string list \<Rightarrow> loop_state \<Rightarrow> string \<Rightarrow> loop_state" where
  \<comment> \<open>one iteration of \<open>for (const domain of rawBlocklist)\<close>\<close>
  "processDomain LIST_ITEM_LIMIT allowlist st0 domain =
     (let st = st0\<lparr>processed := processed st0 + 1\<rparr>
      in if domain \<in> set allowlist then st\<lparr>allowed := allowed st + 1\<rparr>
         else if domain \<in> set (blocklist st) then st\<lparr>duplicates := duplicates st + 1\<rparr>
         else (case checkItems allowlist (drop 1 (extractDomain domain)) st of
                 (isOk, st1) \<Rightarrow>
                   if isOk then
                     (let st2 = st1\<lparr>blocklist := Set_add (blocklist st1) domain\<rparr>
                      in if int (length (domains st2)) > LIST_ITEM_LIMIT - LIST_ITEM_SIZE
                         then st2
                         else st2\<lparr>domains := domains st2 @ [domain]\<rparr>)
                   else st1))"

definition processBlocklist :: "int \<Rightarrow> string list \<Rightarrow> string list \<Rightarrow> loop_state" where
  \<comment> \<open>the whole loop, from the empty \<open>blocklist\<close> and \<open>domains\<close> and the zeroed \<open>stats\<close>\<close>
  "processBlocklist LIST_ITEM_LIMIT allowlist rawBlocklist =
     foldl (processDomain LIST_ITEM_LIMIT allowlist) initialState rawBlocklist"

section \<open>Notions of the specification\<close>

definition strictAncestor :: "string \<Rightarrow> string \<Rightarrow> bool" where
  \<comment> \<open>\<open>a\<close> is a strict ancestor of \<open>d\<close>: \<open>d\<close> ends with a dot followed by \<open>a\<close>\<close>
  "strictAncestor a d =
     (length a < length d \<and> drop (length d - Suc (length a)) d = CHR ''.'' # a)"

definition strictAncestorsSpec :: "string \<Rightarrow> string list" where
  \<comment> \<open>the specification's scan order: the strict ancestors of \<open>d\<close> (without \<open>d\<close>), the most
      specific one first\<close>
  "strictAncestorsSpec d =
     (let parts = split_on CHR ''.'' d
      in map (\<lambda>i. join_with ''.'' (drop i parts)) [1..<length parts])"

section \<open>update_filter_lists.js: the feeds\<close>

datatype error = Error string  \<comment> \<open>a thrown \<open>Error\<close> (or \<open>TypeError\<close>) with its message\<close>

record response =
  ok :: bool
  status :: nat
  statusText :: string
  responseText :: "error + string"  \<comment> \<open>what \<open>await response.text()\<close> gives or throws\<close>

datatype fetch_result =
    Rejected error  \<comment> \<open>\<open>fetch(url)\<close> rejects: a network error\<close>
  | Resolved response

type_synonym feed_source = "string \<Rightarrow> fetch_result"

definition parseDomains :: "string \<Rightarrow> bool \<Rightarrow> string list" where
  \<comment> \<open>the pipeline from \<open>text.split('\n')\<close> to the \<open>Set\<close> in fetchDomains\<close>
  "parseDomains txt isAllowlist =
     Set_new
       (filter (\<lambda>domain. isValidDomain domain)
         (map (\<lambda>line. normalizeDomain line isAllowlist)
           (filter (\<lambda>line. line \<noteq> [] \<and> \<not> isComment line)
             (map (\<lambda>line. trim line) (split_on (CHR 0x0A) txt)))))"

definition fetchDomainsTry :: "feed_source \<Rightarrow> string \<Rightarrow> bool \<Rightarrow> error + string list" where
  \<comment> \<open>the \<open>try\<close> block of fetchDomains\<close>
  "fetchDomainsTry fetch url isAllowlist =
     (case fetch url of
        Rejected e \<Rightarrow> Inl e
      | Resolved response \<Rightarrow>
          if \<not> ok response
          then Inl (Error (''HTTP '' @ showNat (status response) @ '': '' @ statusText response))
          else (case responseText response of
                  Inl e \<Rightarrow> Inl e
                | Inr txt \<Rightarrow> Inr (parseDomains txt isAllowlist)))"

definition fetchDomains :: "feed_source \<Rightarrow> string \<Rightarrow> bool \<Rightarrow> string list" where
  \<comment> \<open>the \<open>catch\<close> block logs the error to the console and returns \<open>new Set()\<close>\<close>
  "fetchDomains fetch url isAllowlist =
     (case fetchDomainsTry fetch url isAllowlist of
        Inl e \<Rightarrow> []
      | Inr domainSet \<Rightarrow> domainSet)"

definition fetchAndProcessUrls :: "feed_source \<Rightarrow> string list \<Rightarrow> bool \<Rightarrow> string list" where
  "fetchAndProcessUrls fetch urlList isAllowlist =
     (let domainSets = map (\<lambda>url. fetchDomains fetch url isAllowlist) urlList
      in Set_new (concat domainSets))"

definition fetchFails :: "feed_source \<Rightarrow> string \<Rightarrow> bool" where
  \<comment> \<open>a failed fetch: a network error or a response whose status is not a success\<close>
  "fetchFails fetch url =
     (case fetch url of Rejected e \<Rightarrow> True | Resolved response \<Rightarrow> \<not> ok response)"

definition emptyFeed :: fetch_result where
  \<comment> \<open>a successful response with an empty body\<close>
  "emptyFeed = Resolved \<lparr>ok = True, status = 200, statusText = ''OK'', responseText = Inr []\<rparr>"

section \<open>lib/api.js: the gateway client\<close>

text \<open>
  The remote gateway is a collaborator: what it answers is a parameter, a function of
  the request and of everything the run has done before it. A run's observable effects
  are the requests it sends and the notifications it asks for, in order; an operation
  takes the effects so far and returns its outcome, a thrown error or a value, with
  the effects extended.
\<close>

datatype js_id = IdNum nat | IdStr string  \<comment> \<open>the \<open>id\<close> of a remote list or rule\<close>

fun idToString :: "js_id \<Rightarrow> string" where
  \<comment> \<open>what a template literal makes of an id; for a numeric id, exact below \<open>10^21\<close>\<close>
  "idToString (IdNum n) = showNat n"
| "idToString (IdStr s) = s"

datatype remote_object = RemoteObject (objectId: js_id) (objectName: string)

datatype rule_payload =
  RulePayload (ruleName: string) (ruleFilters: "string list") (ruleTraffic: string)

datatype gateway_call =
    GetLists  \<comment> \<open>\<open>GET /lists\<close>\<close>
  | PostList string "string list"  \<comment> \<open>\<open>POST /lists\<close> with the name and the items\<close>
  | DeleteList js_id  \<comment> \<open>\<open>DELETE /lists/id\<close>\<close>
  | GetRules  \<comment> \<open>\<open>GET /rules\<close>\<close>
  | PostRule rule_payload  \<comment> \<open>\<open>POST /rules\<close>\<close>
  | PutRule js_id rule_payload  \<comment> \<open>\<open>PUT /rules/id\<close>\<close>
  | DeleteRule js_id  \<comment> \<open>\<open>DELETE /rules/id\<close>\<close>

datatype message =
    UpdateComplete nat nat nat nat
      \<comment> \<open>the statistics message: processed, allowlisted, blocked, lists created\<close>
  | UpdateFailed error

datatype effect =
    Request gateway_call
  | Telegram message bool  \<comment> \<open>a call of sendTelegramNotification(message, isError)\<close>

type_synonym gateway = "effect list \<Rightarrow> gateway_call \<Rightarrow> error + remote_object list option"
  \<comment> \<open>the answer is the \<open>result\<close> field of the JSON body, \<open>None\<close> when it has none\<close>

type_synonym 'a action = "effect list \<Rightarrow> (error + 'a) \<times> effect list"

definition resolved :: "'a \<Rightarrow> 'a action" where
  "resolved a trace = (Inr a, trace)"

definition thrown :: "error \<Rightarrow> 'a action" where
  "thrown e trace = (Inl e, trace)"

definition andThen :: "'a action \<Rightarrow> ('a \<Rightarrow> 'b action) \<Rightarrow> 'b action" where
  \<comment> \<open>\<open>const a = await m; ...\<close>: an error ends the sequence\<close>
  "andThen m f trace =
     (case m trace of (Inl e, trace1) \<Rightarrow> (Inl e, trace1) | (Inr a, trace1) \<Rightarrow> f a trace1)"

definition promiseAll2 :: "'a action \<Rightarrow> 'b action \<Rightarrow> ('a \<times> 'b) action" where
  \<comment> \<open>\<open>await Promise.all([m1, m2])\<close>: both operations are started, an error of either
      is thrown\<close>
  "promiseAll2 m1 m2 trace =
     (case m1 trace of
        (r1, trace1) \<Rightarrow>
          (case m2 trace1 of
             (r2, trace2) \<Rightarrow>
               (case r1 of
                  Inl e \<Rightarrow> (Inl e, trace2)
                | Inr a \<Rightarrow> (case r2 of Inl e \<Rightarrow> (Inl e, trace2) | Inr b \<Rightarrow> (Inr (a, b), trace2)))))"

fun forEach :: "('a \<Rightarrow> unit action) \<Rightarrow> 'a list \<Rightarrow> unit action" where
  \<comment> \<open>\<open>for (const x of xs) { await f(x); }\<close>\<close>
  "forEach f [] trace = (Inr (), trace)"
| "forEach f (x # xs) trace =
     (case f x trace of
        (Inl e, trace1) \<Rightarrow> (Inl e, trace1)
      | (Inr u, trace1) \<Rightarrow> forEach f xs trace1)"

definition requestGateway :: "gateway \<Rightarrow> gateway_call \<Rightarrow> (remote_object list option) action" where
  \<comment> \<open>one logical request: the attempts fetchRetry makes for it, and the notification
      fetchRetry sends before it gives up, are inside the gateway's answer and leave no
      effect of their own in the trace\<close>
  "requestGateway gw call trace = (gw trace call, trace @ [Request call])"

definition getZeroTrustLists :: "gateway \<Rightarrow> (remote_object list option) action" where
  "getZeroTrustLists gw = requestGateway gw GetLists"

definition createZeroTrustList :: "gateway \<Rightarrow> string \<Rightarrow> string list \<Rightarrow> (remote_object list option) action" where
  "createZeroTrustList gw name items = requestGateway gw (PostList name items)"

function createListsFrom :: "gateway \<Rightarrow> string list \<Rightarrow> nat \<Rightarrow> nat \<Rightarrow> unit action" where
  \<comment> \<open>the loop of createZeroTrustListsOneByOne, at index \<open>i\<close> and list number \<open>listNumber\<close>\<close>
  "createListsFrom gw items i listNumber trace =
     (if i < length items then
        (let chunk = take (nat LIST_ITEM_SIZE) (drop i items);
             listName = ''CGPS List - Chunk '' @ showNat listNumber
         in case createZeroTrustList gw listName chunk trace of
              (Inl err, trace1) \<Rightarrow> (Inl err, trace1)
            | (Inr created, trace1) \<Rightarrow>
                createListsFrom gw items (i + nat LIST_ITEM_SIZE) (listNumber + 1) trace1)
      else (Inr (), trace))"
  by pat_completeness auto
termination
  by (relation "measure (\<lambda>(gw, items, i, listNumber, trace). length items - i)")
     (auto simp: LIST_ITEM_SIZE_def)

declare createListsFrom.simps [simp del]

definition createZeroTrustListsOneByOne :: "gateway \<Rightarrow> string list \<Rightarrow> unit action" where
  "createZeroTrustListsOneByOne gw items = createListsFrom gw items 0 1"

definition deleteZeroTrustList :: "gateway \<Rightarrow> js_id \<Rightarrow> (remote_object list option) action" where
  "deleteZeroTrustList gw i = requestGateway gw (DeleteList i)"

definition deleteZeroTrustListsOneByOne :: "gateway \<Rightarrow> remote_object list \<Rightarrow> unit action" where
  "deleteZeroTrustListsOneByOne gw remoteLists =
     (if length remoteLists = 0 then resolved ()
      else forEach (\<lambda>l. andThen (deleteZeroTrustList gw (objectId l)) (\<lambda>r. resolved ()))
             remoteLists)"

definition getZeroTrustRules :: "gateway \<Rightarrow> (remote_object list option) action" where
  "getZeroTrustRules gw = requestGateway gw GetRules"

definition buildRulePayload :: "string \<Rightarrow> string \<Rightarrow> string list \<Rightarrow> rule_payload" where
  \<comment> \<open>the fields of the payload that vary; the others are constants\<close>
  "buildRulePayload wirefilterExpression name filters = RulePayload name filters wirefilterExpression"

definition createZeroTrustRule :: "gateway \<Rightarrow> string \<Rightarrow> string \<Rightarrow> string list \<Rightarrow> (remote_object list option) action" where
  "createZeroTrustRule gw wirefilterExpression name filters =
     requestGateway gw (PostRule (buildRulePayload wirefilterExpression name filters))"

definition updateZeroTrustRule :: "gateway \<Rightarrow> js_id \<Rightarrow> string \<Rightarrow> string \<Rightarrow> string list \<Rightarrow> (remote_object list option) action" where
  "updateZeroTrustRule gw i wirefilterExpression name filters =
     requestGateway gw (PutRule i (buildRulePayload wirefilterExpression name filters))"

definition upsertZeroTrustRule :: "bool \<Rightarrow> gateway \<Rightarrow> string \<Rightarrow> string \<Rightarrow> string list \<Rightarrow> (remote_object list option) action" where
  \<comment> \<open>the first parameter is the constant \<open>DEBUG\<close>: with it set, the log line of the
      branch that creates the rule reads \<open>existingRule.name\<close> of an undefined
      \<open>existingRule\<close> and throws\<close>
  "upsertZeroTrustRule debug gw wirefilterExpression name filters =
     andThen (getZeroTrustRules gw) (\<lambda>result.
       case result of
         None \<Rightarrow> thrown (Error ''TypeError: existingRules is undefined'')
       | Some existingRules \<Rightarrow>
           (case find (\<lambda>rule. objectName rule = name) existingRules of
              Some existingRule \<Rightarrow>
                updateZeroTrustRule gw (objectId existingRule) wirefilterExpression name filters
            | None \<Rightarrow>
                if debug then thrown (Error ''TypeError: existingRule is undefined'')
                else createZeroTrustRule gw wirefilterExpression name filters))"

definition deleteZeroTrustRule :: "gateway \<Rightarrow> js_id \<Rightarrow> unit action" where
  "deleteZeroTrustRule gw i = andThen (requestGateway gw (DeleteRule i)) (\<lambda>r. resolved ())"

section \<open>update_filter_lists.js: processLists\<close>

record config =
  LIST_ITEM_LIMIT :: int
  BLOCK_BASED_ON_SNI :: bool
  DEBUG :: bool
  USER_DEFINED_ALLOWLIST_URLS :: "string list option"
  RECOMMENDED_ALLOWLIST_URLS :: "string list"
  USER_DEFINED_BLOCKLIST_URLS :: "string list option"
  RECOMMENDED_BLOCKLIST_URLS :: "string list"

definition orElse :: "'a option \<Rightarrow> 'a \<Rightarrow> 'a" where
  \<comment> \<open>\<open>a || b\<close> for an array \<open>a\<close> that may be undefined: an array, even empty, is truthy\<close>
  "orElse a b = (case a of None \<Rightarrow> b | Some v \<Rightarrow> v)"

definition isMissing :: "string option \<Rightarrow> bool" where
  \<comment> \<open>\<open>!process.env[key]\<close>: the variable is unset or empty\<close>
  "isMissing v = (case v of None \<Rightarrow> True | Some s \<Rightarrow> s = [])"

definition validateEnvironment :: "(string \<Rightarrow> string option) \<Rightarrow> error + unit" where
  "validateEnvironment env =
     (let required = [''CLOUDFLARE_API_TOKEN'', ''CLOUDFLARE_ACCOUNT_ID''];
          missing = filter (\<lambda>key. isMissing (env key)) required
      in if length missing > 0
         then Inl (Error (''Missing required environment variables: '' @ join_with '', '' missing))
         else if isMissing (env ''ALLOWLIST_URLS'') \<and> isMissing (env ''BLOCKLIST_URLS'')
         then Inl (Error ''At least one of ALLOWLIST_URLS or BLOCKLIST_URLS must be provided'')
         else Inr ())"

definition isCgpsList :: "remote_object \<Rightarrow> bool" where
  "isCgpsList l = startsWith (objectName l) ''CGPS List''"

definition isCgpsRule :: "remote_object \<Rightarrow> bool" where
  "isCgpsRule rule = (objectName rule = ''CGPS Filter Lists''
     \<or> objectName rule = ''CGPS Filter Lists - SNI Based Filtering'')"

definition wirefilterDNSExpression :: "remote_object list \<Rightarrow> string" where
  \<comment> \<open>the \<open>reduce\<close> over the lists, before the \<open>slice\<close>\<close>
  "wirefilterDNSExpression remoteLists =
     foldl (\<lambda>previous current.
              if \<not> startsWith (objectName current) ''CGPS List'' then previous
              else previous @ '' any(dns.domains[*] in $'' @ idToString (objectId current) @ '') or '')
       [] remoteLists"

definition wirefilterSNIExpression :: "remote_object list \<Rightarrow> string" where
  "wirefilterSNIExpression remoteLists =
     foldl (\<lambda>previous current.
              if \<not> startsWith (objectName current) ''CGPS List'' then previous
              else previous @ '' any(net.sni.domains[*] in $'' @ idToString (objectId current) @ '') or '')
       [] remoteLists"

definition numberOfLists :: "string list \<Rightarrow> nat" where
  \<comment> \<open>\<open>Math.ceil(domains.length / LIST_ITEM_SIZE)\<close>\<close>
  "numberOfLists ds = nat ((int (length ds) + LIST_ITEM_SIZE - 1) div LIST_ITEM_SIZE)"

definition fetchLists :: "config \<Rightarrow> feed_source \<Rightarrow> string list \<times> string list" where
  \<comment> \<open>\<open>const [allowlist, rawBlocklist] = await Promise.all([...])\<close>; fetchDomains never
      throws\<close>
  "fetchLists cfg fetch =
     (fetchAndProcessUrls fetch
        (orElse (USER_DEFINED_ALLOWLIST_URLS cfg) (RECOMMENDED_ALLOWLIST_URLS cfg)) True,
      fetchAndProcessUrls fetch
        (orElse (USER_DEFINED_BLOCKLIST_URLS cfg) (RECOMMENDED_BLOCKLIST_URLS cfg)) False)"

definition finalState :: "config \<Rightarrow> feed_source \<Rightarrow> loop_state" where
  \<comment> \<open>the state the loop over the raw blocklist ends in\<close>
  "finalState cfg fetch =
     (case fetchLists cfg fetch of
        (allowlist, rawBlocklist) \<Rightarrow> processBlocklist (LIST_ITEM_LIMIT cfg) allowlist rawBlocklist)"

definition updateGateway :: "config \<Rightarrow> gateway \<Rightarrow> string list \<Rightarrow> loop_state \<Rightarrow> unit action" where
  \<comment> \<open>processLists from \<open>// Delete existing rules and lists\<close> to its end\<close>
  "updateGateway cfg gw allowlist st =
     andThen (promiseAll2 (getZeroTrustRules gw) (getZeroTrustLists gw)) (\<lambda>(existingRules, existingLists).
       let cgpsRules = (case existingRules of None \<Rightarrow> [] | Some rs \<Rightarrow> filter isCgpsRule rs);
           cgpsLists = (case existingLists of None \<Rightarrow> [] | Some ls \<Rightarrow> filter isCgpsList ls)
       in andThen (forEach (\<lambda>rule. deleteZeroTrustRule gw (objectId rule)) cgpsRules) (\<lambda>u1.
          andThen (if length cgpsLists \<noteq> 0 then deleteZeroTrustListsOneByOne gw cgpsLists
                   else resolved ()) (\<lambda>u2.
          andThen (createZeroTrustListsOneByOne gw (domains st)) (\<lambda>u3.
          andThen (getZeroTrustLists gw) (\<lambda>result.
            case result of
              None \<Rightarrow> thrown (Error ''TypeError: lists is undefined'')
            | Some remoteLists \<Rightarrow>
                andThen (upsertZeroTrustRule (DEBUG cfg) gw
                           (sliceOffEnd 4 (wirefilterDNSExpression remoteLists))
                           ''CGPS Filter Lists'' [''dns'']) (\<lambda>r1.
                andThen (if BLOCK_BASED_ON_SNI cfg
                         then upsertZeroTrustRule (DEBUG cfg) gw
                                (sliceOffEnd 4 (wirefilterSNIExpression remoteLists))
                                ''CGPS Filter Lists - SNI Based Filtering'' [''l4'']
                         else resolved None) (\<lambda>r2.
                (\<lambda>trace. (Inr (), trace @
                   [Telegram (UpdateComplete (processed st) (length allowlist)
                      (length (domains st)) (numberOfLists (domains st))) False])))))))))"

definition processLists ::
  "config \<Rightarrow> (string \<Rightarrow> string option) \<Rightarrow> feed_source \<Rightarrow> gateway \<Rightarrow> (error + unit) \<times> effect list" where
  "processLists cfg env fetch gw =
     (case validateEnvironment env of
        Inl e \<Rightarrow> (Inl e, [])
      | Inr u \<Rightarrow>
          (case fetchLists cfg fetch of
             (allowlist, rawBlocklist) \<Rightarrow>
               (let st = processBlocklist (LIST_ITEM_LIMIT cfg) allowlist rawBlocklist
                in if length (domains st) = 0 then (Inr (), [])
                   else updateGateway cfg gw allowlist st [])))"

definition runScript ::
  "config \<Rightarrow> (string \<Rightarrow> string option) \<Rightarrow> feed_source \<Rightarrow> gateway \<Rightarrow> nat \<times> effect list" where
  \<comment> \<open>\<open>processLists().catch(...)\<close>: an error is notified and the process exits with 1\<close>
  "runScript cfg env fetch gw =
     (case processLists cfg env fetch gw of
        (Inl e, trace) \<Rightarrow> (1, trace @ [Telegram (UpdateFailed e) True])
      | (Inr u, trace) \<Rightarrow> (0, trace))"

section \<open>Notions of the proofs\<close>

text \<open>
  A matcher consumes \<open>Q\<close> when every cursor it ends at leaves a part of the input it
  started from, and the part in between satisfies \<open>Q\<close>.
\<close>

definition consumes :: "(string \<Rightarrow> bool) \<Rightarrow> matcher \<Rightarrow> bool" where
  "consumes Q m \<longleftrightarrow> (\<forall>x y. y \<in> set (m x) \<longrightarrow> (\<exists>u. snd x = u @ snd y \<and> Q u))"

definition reachesEnd :: "matcher \<Rightarrow> bool" where
  "reachesEnd m \<longleftrightarrow> (\<forall>x y. y \<in> set (m x) \<longrightarrow> snd y = [])"

definition domainText :: "string \<Rightarrow> bool" where
  "domainText u \<longleftrightarrow> (\<forall>c \<in> set u. isLabelChar c \<or> c = CHR ''.'')"

definition hasDot :: "string \<Rightarrow> bool" where
  "hasDot u \<longleftrightarrow> CHR ''.'' \<in> set u"

definition anyText :: "string \<Rightarrow> bool" where
  "anyText u \<longleftrightarrow> True"

definition hasSpace :: "string \<Rightarrow> bool" where
  "hasSpace u \<longleftrightarrow> (\<exists>c \<in> set u. isSpace c)"

text \<open>
  The loop accepts a domain in a state when neither the domain nor any item scanned for
  it is in the allowlist or in the block set of that state.
\<close>

definition accepts :: "string list \<Rightarrow> loop_state \<Rightarrow> string \<Rightarrow> bool" where
  "accepts allow st d \<longleftrightarrow> d \<notin> set allow \<and> d \<notin> set (blocklist st) \<and>
     (\<forall>item \<in> set (drop 1 (extractDomain d)). item \<notin> set allow \<and> item \<notin> set (blocklist st))"

definition cleanOf :: "string list \<Rightarrow> string \<Rightarrow> bool" where
  "cleanOf allow x \<longleftrightarrow> x \<notin> set allow \<and> (\<forall>item \<in> set (drop 1 (extractDomain x)). item \<notin> set allow)"

definition ordered :: "loop_state \<Rightarrow> bool" where
  "ordered st \<longleftrightarrow> set (domains st) \<subseteq> set (blocklist st) \<and>
     (\<forall>us a vs d. domains st = us @ a # vs \<longrightarrow> d \<in> set vs \<longrightarrow> a \<notin> set (drop 1 (extractDomain d)))"

section \<open>Splitting and joining\<close>

lemma split_on_nonempty: "split_on c s \<noteq> []"
  by (induction s) (auto simp: Let_def)

lemma join_split_on: "join_with [c] (split_on c s) = s"
proof (induction s)
  case Nil
  then show ?case by simp
next
  case (Cons x xs)
  obtain p ps where sp: "split_on c xs = p # ps"
    using split_on_nonempty[of c xs] by (cases "split_on c xs") auto
  with Cons show ?case by (cases ps) (auto simp: Let_def)
qed

lemma split_on_append: "split_on c (p @ c # a) = split_on c p @ split_on c a"
proof (induction p)
  case Nil
  then show ?case by simp
next
  case (Cons x p)
  then show ?case using split_on_nonempty[of c p] by (cases "split_on c p") (auto simp: Let_def)
qed

lemma length_split_on: "length (split_on c s) = Suc (length (filter (\<lambda>x. x = c) s))"
proof (induction s)
  case Nil
  then show ?case by simp
next
  case (Cons x xs)
  then show ?case using split_on_nonempty[of c xs] by (cases "split_on c xs") (auto simp: Let_def)
qed

lemma length_split_on_ge2: "c \<in> set s \<Longrightarrow> 2 \<le> length (split_on c s)"
proof -
  assume "c \<in> set s"
  then have "filter (\<lambda>x. x = c) s \<noteq> []" by (auto simp: filter_empty_conv)
  then have "0 < length (filter (\<lambda>x. x = c) s)" by simp
  then show ?thesis unfolding length_split_on by linarith
qed

lemma foldl_unshift: "foldl (\<lambda>acc i. f i # acc) acc0 xs = rev (map f xs) @ acc0"
  by (induction xs arbitrary: acc0) auto

lemma extractDomain_eq:
  "extractDomain d = rev (map (\<lambda>i. join_with ''.'' (drop i (split_on CHR ''.'' d))) [0..<length (split_on CHR ''.'' d)])"
  by (simp add: extractDomain_def Let_def foldl_unshift)

lemma drop1_rev_map_upt: "drop 1 (rev (map f [0..<n])) = rev (map f [0..<n - 1])"
  by (cases n) auto

lemma extractDomain_items:
  "drop 1 (extractDomain d) = rev (map (\<lambda>i. join_with ''.'' (drop i (split_on CHR ''.'' d))) [0..<length (split_on CHR ''.'' d) - 1])"
  unfolding extractDomain_eq by (rule drop1_rev_map_upt)

lemma strictAncestor_decomp: "strictAncestor a d \<longleftrightarrow> (\<exists>p. d = p @ CHR ''.'' # a)"
proof
  assume h: "strictAncestor a d"
  then have "d = take (length d - Suc (length a)) d @ CHR ''.'' # a"
    unfolding strictAncestor_def by (metis append_take_drop_id)
  then show "\<exists>p. d = p @ CHR ''.'' # a" by blast
next
  assume "\<exists>p. d = p @ CHR ''.'' # a"
  then obtain p where "d = p @ CHR ''.'' # a" by blast
  then show "strictAncestor a d" by (simp add: strictAncestor_def)
qed

lemma ancestor_in_items:
  assumes anc: "strictAncestor a d" and dot: "CHR ''.'' \<in> set a"
  shows "a \<in> set (drop 1 (extractDomain d))"
proof -
  obtain p where d: "d = p @ CHR ''.'' # a" using anc strictAncestor_decomp by blast
  let ?c = "CHR ''.''"
  let ?parts = "split_on ?c d"
  let ?i = "length (split_on ?c p)"
  have parts: "?parts = split_on ?c p @ split_on ?c a" by (simp add: d split_on_append)
  have "drop ?i ?parts = split_on ?c a" by (simp add: parts)
  then have a: "join_with ''.'' (drop ?i ?parts) = a" by (simp add: join_split_on)
  have "2 \<le> length (split_on ?c a)" using dot by (rule length_split_on_ge2)
  then have "?i < length ?parts - 1" by (simp add: parts)
  then have "?i \<in> set [0..<length ?parts - 1]" by simp
  then have "join_with ''.'' (drop ?i ?parts) \<in> set (drop 1 (extractDomain d))"
    unfolding extractDomain_items set_rev set_map by (rule imageI)
  with a show ?thesis by simp
qed

lemma checkItems_ok_state: "fst (checkItems allow items st) \<Longrightarrow> snd (checkItems allow items st) = st"
  by (induction items) (auto split: if_splits)

section \<open>What the regular expressions consume\<close>

lemma consumesI: "(\<And>x y. y \<in> set (m x) \<Longrightarrow> \<exists>u. snd x = u @ snd y \<and> Q u) \<Longrightarrow> consumes Q m"
  unfolding consumes_def by blast

lemma consumesD: "consumes Q m \<Longrightarrow> y \<in> set (m x) \<Longrightarrow> \<exists>u. snd x = u @ snd y \<and> Q u"
  unfolding consumes_def by blast

lemma consumes_weaken: "consumes Q m \<Longrightarrow> (\<And>u. Q u \<Longrightarrow> Q' u) \<Longrightarrow> consumes Q' m"
  unfolding consumes_def by blast


lemma re_lit_Nil: "re_lit [] = re_eps"
  by (rule ext) (simp add: re_eps_def)

lemma re_lit_Cons: "re_lit (c # cs) = re_seq (re_chr c) (re_lit cs)"
  by (rule ext) (simp add: re_seq_def)

lemma re_opt_alt: "re_opt m = re_alt m re_eps"
  by (rule ext) (simp add: re_opt_def re_alt_def re_eps_def)

lemma re_times_0: "re_times 0 m = re_eps"
  by (rule ext) (simp add: re_eps_def)

lemma re_times_Suc: "re_times (Suc n) m = re_seq m (re_times n m)"
  by (rule ext) (simp add: re_seq_def)

lemma re_upto_0: "re_upto 0 m = re_eps"
  by (rule ext) (simp add: re_eps_def)

lemma re_upto_Suc: "re_upto (Suc n) m = re_alt (re_seq m (re_upto n m)) re_eps"
  by (rule ext) (simp add: re_seq_def re_alt_def re_eps_def)

lemma re_range_seq: "re_range lo hi m = re_seq (re_times lo m) (re_upto (hi - lo) m)"
  by (rule ext) (simp add: re_seq_def re_range_def)

lemma re_plus_seq: "re_plus m = re_seq m (re_star m)"
  by (rule ext) (simp add: re_seq_def re_plus_def)

lemma domainLabel_eq:
  "domainLabel =
     re_seq (re_lookahead (re_seq (re_range 1 63 (re_class isLabelChar)) (re_chr CHR ''.'')))
       (re_seq (re_opt (re_lit ''xn--''))
         (re_seq (re_plus (re_class isLowerDigit))
           (re_seq (re_star (re_seq (re_chr CHR ''-'') (re_plus (re_class isLowerDigit))))
             (re_chr CHR ''.''))))"
  by (rule ext) (simp only: domainLabel_def)

lemma domainRegex_eq:
  "domainRegex =
     re_seq re_bol (re_seq re_wordb (re_seq (re_plus domainLabel)
       (re_seq (re_range 2 63 (re_class isLower)) (re_seq re_wordb re_eol))))"
  by (rule ext) (simp only: domainRegex_def)

lemma ipPrefix_eq:
  "ipPrefix =
     re_seq (re_alt (re_lit ''0.0.0.0'') (re_alt (re_lit ''127.0.0.1'')
               (re_alt (re_lit ''::1'') (re_lit ''::''))))
       (re_plus (re_class isSpace))"
  by (rule ext) (simp only: ipPrefix_def)

lemma consumes_eps: "Q [] \<Longrightarrow> consumes Q re_eps"
  by (simp add: consumes_def re_eps_def)

lemma consumes_class: assumes "\<And>c. P c \<Longrightarrow> Q [c]" shows "consumes Q (re_class P)"
proof (rule consumesI)
  fix x y assume y: "y \<in> set (re_class P x)"
  obtain prev s where x: "x = (prev, s)" by (cases x)
  show "\<exists>u. snd x = u @ snd y \<and> Q u"
  proof (cases s)
    case Nil
    with y x show ?thesis by simp
  next
    case (Cons c r)
    with y x have "P c" and "y = (Some c, r)" by (auto split: if_splits)
    with x Cons assms[of c] have "snd x = [c] @ snd y \<and> Q [c]" by simp
    then show ?thesis by blast
  qed
qed

lemma consumes_chr: assumes "Q [c]" shows "consumes Q (re_chr c)"
proof -
  have e: "re_chr c = re_class (\<lambda>k. k = c)" by (rule ext) (simp add: re_chr_def)
  show ?thesis unfolding e by (rule consumes_class) (simp add: assms)
qed

lemma consumes_seq:
  assumes "consumes Q1 m1" and "consumes Q2 m2" and "\<And>u v. Q1 u \<Longrightarrow> Q2 v \<Longrightarrow> Q (u @ v)"
  shows "consumes Q (re_seq m1 m2)"
proof (rule consumesI)
  fix x y assume "y \<in> set (re_seq m1 m2 x)"
  then obtain z where z: "z \<in> set (m1 x)" and y: "y \<in> set (m2 z)"
    by (auto simp: re_seq_def)
  from consumesD[OF assms(1) z] obtain u where u: "snd x = u @ snd z" "Q1 u" by blast
  from consumesD[OF assms(2) y] obtain v where v: "snd z = v @ snd y" "Q2 v" by blast
  from u v assms(3) have "snd x = (u @ v) @ snd y \<and> Q (u @ v)" by simp
  then show "\<exists>w. snd x = w @ snd y \<and> Q w" by blast
qed

lemma consumes_alt: "consumes Q m1 \<Longrightarrow> consumes Q m2 \<Longrightarrow> consumes Q (re_alt m1 m2)"
  by (auto simp: consumes_def re_alt_def)

lemma consumes_opt: "consumes Q m \<Longrightarrow> Q [] \<Longrightarrow> consumes Q (re_opt m)"
  unfolding re_opt_alt by (intro consumes_alt consumes_eps)

lemma consumes_times:
  assumes "consumes Q m" and "Q []" and "\<And>u v. Q u \<Longrightarrow> Q v \<Longrightarrow> Q (u @ v)"
  shows "consumes Q (re_times n m)"
proof (induction n)
  case 0
  show ?case unfolding re_times_0 by (rule consumes_eps) (rule assms(2))
next
  case (Suc n)
  show ?case unfolding re_times_Suc by (rule consumes_seq[OF assms(1) Suc]) (rule assms(3))
qed

lemma consumes_upto:
  assumes "consumes Q m" and "Q []" and "\<And>u v. Q u \<Longrightarrow> Q v \<Longrightarrow> Q (u @ v)"
  shows "consumes Q (re_upto n m)"
proof (induction n)
  case 0
  show ?case unfolding re_upto_0 by (rule consumes_eps) (rule assms(2))
next
  case (Suc n)
  have "consumes Q (re_seq m (re_upto n m))"
    by (rule consumes_seq[OF assms(1) Suc]) (rule assms(3))
  then show ?case unfolding re_upto_Suc by (intro consumes_alt consumes_eps assms(2))
qed

lemma consumes_range:
  assumes "consumes Q m" and "Q []" and "\<And>u v. Q u \<Longrightarrow> Q v \<Longrightarrow> Q (u @ v)"
  shows "consumes Q (re_range lo hi m)"
  unfolding re_range_seq by (intro consumes_seq[where ?Q1.0=Q and ?Q2.0=Q] consumes_times consumes_upto assms)

lemma consumes_star:
  assumes "consumes Q m" and "Q []" and "\<And>u v. Q u \<Longrightarrow> Q v \<Longrightarrow> Q (u @ v)"
  shows "consumes Q (re_star m)"
proof (rule consumesI)
  fix x y assume "y \<in> set (re_star m x)"
  then have "y \<in> set (re_upto (length (snd x)) m x)" by (simp add: re_star_def)
  then show "\<exists>u. snd x = u @ snd y \<and> Q u"
    using consumes_upto[OF assms] consumesD by blast
qed

lemma consumes_plus:
  assumes "consumes Q m" and "Q []" and "\<And>u v. Q u \<Longrightarrow> Q v \<Longrightarrow> Q (u @ v)"
  shows "consumes Q (re_plus m)"
  unfolding re_plus_seq by (intro consumes_seq[where ?Q1.0=Q and ?Q2.0=Q] consumes_star assms)

lemma consumes_lit: "Q [] \<Longrightarrow> (\<And>c. c \<in> set w \<Longrightarrow> Q [c]) \<Longrightarrow> (\<And>u v. Q u \<Longrightarrow> Q v \<Longrightarrow> Q (u @ v)) \<Longrightarrow> consumes Q (re_lit w)"
proof (induction w)
  case Nil
  then show ?case by (simp add: consumes_eps re_lit_Nil)
next
  case (Cons c w)
  have c: "consumes Q (re_chr c)" by (rule consumes_chr) (simp add: Cons.prems)
  have w: "consumes Q (re_lit w)" by (rule Cons.IH) (simp_all add: Cons.prems)
  show ?case unfolding re_lit_Cons
    by (rule consumes_seq[OF c w]) (rule Cons.prems(3))
qed

lemma consumes_lookahead: "Q [] \<Longrightarrow> consumes Q (re_lookahead m)"
  by (auto simp: consumes_def re_lookahead_def split: if_splits)

lemma consumes_bol: "Q [] \<Longrightarrow> consumes Q re_bol"
  by (auto simp: consumes_def re_bol_def split: if_splits)

lemma consumes_eol: "Q [] \<Longrightarrow> consumes Q re_eol"
  by (auto simp: consumes_def re_eol_def split: if_splits)

lemma consumes_wordb: "Q [] \<Longrightarrow> consumes Q re_wordb"
  by (auto simp: consumes_def re_wordb_def split: if_splits)

lemma reachesEnd_eol: "reachesEnd re_eol"
  by (auto simp: reachesEnd_def re_eol_def split: if_splits)

lemma reachesEnd_seq: "reachesEnd m2 \<Longrightarrow> reachesEnd (re_seq m1 m2)"
  by (auto simp: reachesEnd_def re_seq_def)

lemma domainText_simps:
  "domainText []" "domainText (u @ v) \<longleftrightarrow> domainText u \<and> domainText v"
  "domainText [c] \<longleftrightarrow> isLabelChar c \<or> c = CHR ''.''"
  by (auto simp: domainText_def)

lemma class_sub: "isLowerDigit c \<Longrightarrow> isLabelChar c" "isLower c \<Longrightarrow> isLabelChar c"
  by (auto simp: isLowerDigit_def isLabelChar_def isLower_def)

lemma xn_label: "c \<in> set ''xn--'' \<Longrightarrow> isLabelChar c"
  by (auto simp: isLabelChar_def charIn_def)

lemma consumes_xn: "consumes domainText (re_opt (re_lit ''xn--''))"
  by (intro consumes_opt consumes_lit) (auto simp: domainText_simps xn_label)

lemma consumes_lowerDigits: "consumes domainText (re_plus (re_class isLowerDigit))"
  by (intro consumes_plus consumes_class) (auto simp: domainText_simps class_sub)

lemma consumes_hyphenated:
  "consumes domainText (re_star (re_seq (re_chr CHR ''-'') (re_plus (re_class isLowerDigit))))"
  by (intro consumes_star consumes_seq[where ?Q1.0=domainText and ?Q2.0=domainText and Q=domainText]
        consumes_chr consumes_lowerDigits)
     (auto simp: domainText_simps isLabelChar_def)

lemma consumes_dot: "consumes domainText (re_chr CHR ''.'')"
  by (rule consumes_chr) (simp add: domainText_simps)

lemma consumes_domainLabel: "consumes domainText domainLabel"
  unfolding domainLabel_eq
  by (intro consumes_seq[where ?Q1.0=domainText and ?Q2.0=domainText and Q=domainText]
        consumes_lookahead consumes_xn consumes_lowerDigits consumes_hyphenated consumes_dot)
     (auto simp: domainText_simps)

lemma consumes_domainRegex: "consumes domainText domainRegex"
  unfolding domainRegex_eq
  by (intro consumes_seq[where ?Q1.0=domainText and ?Q2.0=domainText and Q=domainText]
        consumes_bol consumes_wordb consumes_eol consumes_plus consumes_range consumes_class consumes_domainLabel)
     (auto simp: domainText_simps class_sub)

lemma reachesEnd_domainRegex: "reachesEnd domainRegex"
  unfolding domainRegex_eq by (intro reachesEnd_seq reachesEnd_eol)

lemma isValidDomain_chars: assumes "isValidDomain v" shows "domainText v"
proof -
  from assms obtain y where y: "y \<in> set (domainRegex (None, v))"
    unfolding isValidDomain_def re_test_def by (cases "domainRegex (None, v)") auto
  from consumesD[OF consumes_domainRegex y] obtain u where "v = u @ snd y" "domainText u" by auto
  moreover have "snd y = []" using reachesEnd_domainRegex y unfolding reachesEnd_def by blast
  ultimately show ?thesis by simp
qed

lemma consumes_any: "consumes Q m \<Longrightarrow> consumes anyText m"
  by (rule consumes_weaken) (simp_all add: anyText_def)

lemma consumes_seq_dot2: "consumes Q m1 \<Longrightarrow> consumes hasDot m2 \<Longrightarrow> consumes hasDot (re_seq m1 m2)"
  by (rule consumes_seq[where ?Q1.0=Q and ?Q2.0=hasDot]) (auto simp: hasDot_def)

lemma consumes_seq_dot1: "consumes hasDot m1 \<Longrightarrow> consumes Q m2 \<Longrightarrow> consumes hasDot (re_seq m1 m2)"
  by (rule consumes_seq[where ?Q1.0=hasDot and ?Q2.0=Q]) (auto simp: hasDot_def)

lemma hasDot_domainLabel: "consumes hasDot domainLabel"
proof -
  have l: "domainLabel = re_seq (re_lookahead (re_seq (re_range 1 63 (re_class isLabelChar)) (re_chr CHR ''.'')))
       (re_seq (re_opt (re_lit ''xn--''))
         (re_seq (re_plus (re_class isLowerDigit))
           (re_seq (re_star (re_seq (re_chr CHR ''-'') (re_plus (re_class isLowerDigit))))
             (re_chr CHR ''.''))))" by (rule domainLabel_eq)
  have any: "consumes domainText m \<Longrightarrow> consumes anyText m" for m by (rule consumes_any)
  have dot: "consumes hasDot (re_chr CHR ''.'')" by (rule consumes_chr) (simp add: hasDot_def)
  have a1: "consumes anyText (re_lookahead m)" for m by (rule consumes_lookahead) (simp add: anyText_def)
  have a2: "consumes domainText (re_opt (re_lit ''xn--''))"
    by (intro consumes_opt consumes_lit) (auto simp: domainText_simps xn_label)
  have a3: "consumes domainText (re_plus (re_class isLowerDigit))"
    by (intro consumes_plus consumes_class) (auto simp: domainText_simps class_sub)
  have a4: "consumes domainText (re_star (re_seq (re_chr CHR ''-'') (re_plus (re_class isLowerDigit))))"
    by (intro consumes_star consumes_seq[where ?Q1.0=domainText and ?Q2.0=domainText and Q=domainText] consumes_chr a3)
       (auto simp: domainText_simps isLabelChar_def)
  show ?thesis unfolding l
    by (intro consumes_seq_dot2[OF a1] consumes_seq_dot2[OF a2] consumes_seq_dot2[OF a3] consumes_seq_dot2[OF a4] dot)
qed

lemma hasDot_domainRegex: "consumes hasDot domainRegex"
proof -
  have p: "consumes hasDot (re_plus domainLabel)"
    unfolding re_plus_seq
    by (rule consumes_seq_dot1[OF hasDot_domainLabel])
       (rule consumes_star[OF consumes_domainLabel], auto simp: domainText_simps)
  have b: "consumes domainText re_bol" "consumes domainText re_wordb"
    by (simp_all add: consumes_bol consumes_wordb domainText_simps)
  have r: "consumes domainText (re_seq (re_range 2 63 (re_class isLower)) (re_seq re_wordb re_eol))"
    by (intro consumes_seq[where ?Q1.0=domainText and ?Q2.0=domainText and Q=domainText]
        consumes_wordb consumes_eol consumes_range consumes_class)
       (auto simp: domainText_simps class_sub)
  show ?thesis unfolding domainRegex_eq
    by (intro consumes_seq_dot2[OF b(1)] consumes_seq_dot2[OF b(2)] consumes_seq_dot1[OF p r])
qed

lemma isValidDomain_dot: assumes "isValidDomain v" shows "CHR ''.'' \<in> set v"
proof -
  from assms obtain y where y: "y \<in> set (domainRegex (None, v))"
    unfolding isValidDomain_def re_test_def by (cases "domainRegex (None, v)") auto
  from consumesD[OF hasDot_domainRegex y] obtain u where "v = u @ snd y" "hasDot u" by auto
  then show ?thesis by (auto simp: hasDot_def)
qed

section \<open>Normalizing a valid domain\<close>

lemma removeFirst_absent:
  assumes "c \<in> set pat" and "c \<notin> set s"
  shows "removeFirst pat s = s"
  using assms(2)
proof (induction s)
  case Nil
  then show ?case by simp
next
  case (Cons x xs)
  have "take (length pat) (x # xs) \<noteq> pat"
  proof
    assume "take (length pat) (x # xs) = pat"
    then have "set pat \<subseteq> set (x # xs)" by (metis set_take_subset)
    with assms(1) Cons.prems show False by blast
  qed
  with Cons show ?case by simp
qed

lemma consumes_ipPrefix: "consumes hasSpace ipPrefix"
proof -
  have any: "anyText []" "\<And>u v. anyText u \<Longrightarrow> anyText v \<Longrightarrow> anyText (u @ v)" "\<And>c. anyText [c]"
    by (simp_all add: anyText_def)
  have alts: "consumes anyText (re_alt (re_lit ''0.0.0.0'') (re_alt (re_lit ''127.0.0.1'')
               (re_alt (re_lit ''::1'') (re_lit ''::''))))"
    by (intro consumes_alt consumes_lit any)
  have sp: "consumes hasSpace (re_class isSpace)"
    by (rule consumes_class) (simp add: hasSpace_def)
  have st: "consumes anyText (re_star (re_class isSpace))"
    by (intro consumes_star consumes_class any)
  have pl: "consumes hasSpace (re_plus (re_class isSpace))"
    unfolding re_plus_seq by (rule consumes_seq[OF sp st]) (auto simp: hasSpace_def)
  show ?thesis unfolding ipPrefix_eq
    by (rule consumes_seq[OF alts pl]) (auto simp: hasSpace_def)
qed

lemma ipPrefix_no_space: assumes "\<forall>c \<in> set s. \<not> isSpace c" shows "ipPrefix (prev, s) = []"
proof (rule ccontr)
  assume "ipPrefix (prev, s) \<noteq> []"
  then obtain y where "y \<in> set (ipPrefix (prev, s))" by (cases "ipPrefix (prev, s)") auto
  from consumesD[OF consumes_ipPrefix this] obtain u where "s = u @ snd y" "hasSpace u" by auto
  with assms show False by (auto simp: hasSpace_def)
qed

lemma re_removeFirst_ipPrefix_absent:
  "\<forall>c \<in> set s. \<not> isSpace c \<Longrightarrow> re_removeFirst ipPrefix prev s = s"
proof (induction s arbitrary: prev)
  case Nil
  then show ?case by (simp add: ipPrefix_no_space)
next
  case (Cons c cs)
  have "ipPrefix (prev, c # cs) = []" using Cons.prems by (rule ipPrefix_no_space)
  moreover have "re_removeFirst ipPrefix (Some c) cs = cs" using Cons by simp
  ultimately show ?case by simp
qed

lemma domainText_excludes:
  assumes "domainText s"
  shows "CHR ''@'' \<notin> set s" "CHR ''|'' \<notin> set s" "CHR ''^'' \<notin> set s" "CHR ''*'' \<notin> set s"
    "\<forall>c \<in> set s. \<not> isSpace c"
  using assms by (auto simp: domainText_def isLabelChar_def charIn_def isSpace_def)

lemma normalizeDomain_domainText: assumes "domainText d" shows "normalizeDomain d b = d"
proof -
  note ex = domainText_excludes[OF assms]
  have 1: "removeFirst ''@@||'' d = d" by (rule removeFirst_absent[of "CHR ''@''"]) (simp_all add: ex)
  have 2: "re_removeFirst ipPrefix None d = d" by (rule re_removeFirst_ipPrefix_absent) (rule ex(5))
  have 3: "removeFirst ''||'' d = d" by (rule removeFirst_absent[of "CHR ''|''"]) (simp_all add: ex)
  have 4: "removeFirst ''^$important'' d = d" by (rule removeFirst_absent[of "CHR ''^''"]) (simp_all add: ex)
  have 5: "removeFirst ''*.'' d = d" by (rule removeFirst_absent[of "CHR ''*''"]) (simp_all add: ex)
  have 6: "removeFirst ''^'' d = d" by (rule removeFirst_absent[of "CHR ''^''"]) (simp_all add: ex)
  show ?thesis by (simp add: normalizeDomain_def Let_def 1 2 3 4 5 6)
qed

lemma normalizeDomain_valid: "isValidDomain d \<Longrightarrow> normalizeDomain d b = d"
  by (rule normalizeDomain_domainText) (rule isValidDomain_chars)

section \<open>Invariants of the loop\<close>

lemma checkItems_find:
  "checkItems allow items st =
     (case find (\<lambda>item. item \<in> set allow \<or> item \<in> set (blocklist st)) items of
        None \<Rightarrow> (True, st)
      | Some item \<Rightarrow>
          if item \<in> set allow then (False, st\<lparr>allowed := allowed st + 1\<rparr>)
          else (False, st\<lparr>duplicates := duplicates st + 1\<rparr>))"
  by (induction items) auto

lemma checkItems_fst:
  "fst (checkItems allow items st) \<longleftrightarrow> (\<forall>item \<in> set items. item \<notin> set allow \<and> item \<notin> set (blocklist st))"
  by (induction items) auto

lemma checkItems_not_ok_frame:
  "blocklist (snd (checkItems allow items st)) = blocklist st"
  "domains (snd (checkItems allow items st)) = domains st"
  by (induction items) auto

lemma processDomain_accept:
  assumes "accepts allow st d"
  shows "blocklist (processDomain L allow st d) = blocklist st @ [d]"
    and "domains (processDomain L allow st d) =
          (if int (length (domains st)) > L - LIST_ITEM_SIZE then domains st else domains st @ [d])"
proof -
  let ?st = "st\<lparr>processed := processed st + 1\<rparr>"
  have f: "fst (checkItems allow (drop 1 (extractDomain d)) ?st)"
    using assms by (simp add: checkItems_fst accepts_def)
  then have s: "snd (checkItems allow (drop 1 (extractDomain d)) ?st) = ?st"
    by (rule checkItems_ok_state)
  from f s have c: "checkItems allow (drop 1 (extractDomain d)) ?st = (True, ?st)"
    by (metis prod.collapse)
  show "blocklist (processDomain L allow st d) = blocklist st @ [d]"
    using assms c by (simp add: processDomain_def Let_def accepts_def Set_add_def)
  show "domains (processDomain L allow st d) =
          (if int (length (domains st)) > L - LIST_ITEM_SIZE then domains st else domains st @ [d])"
    using assms c by (simp add: processDomain_def Let_def accepts_def Set_add_def)
qed

lemma processDomain_reject:
  assumes "\<not> accepts allow st d"
  shows "blocklist (processDomain L allow st d) = blocklist st"
    and "domains (processDomain L allow st d) = domains st"
proof -
  let ?st = "st\<lparr>processed := processed st + 1\<rparr>"
  let ?r = "checkItems allow (drop 1 (extractDomain d)) ?st"
  have nf: "d \<notin> set allow \<Longrightarrow> d \<notin> set (blocklist st) \<Longrightarrow> \<not> fst ?r"
    using assms by (simp add: checkItems_fst accepts_def)
  have b: "blocklist (snd ?r) = blocklist st" and dm: "domains (snd ?r) = domains st"
    by (simp_all add: checkItems_not_ok_frame)
  show "blocklist (processDomain L allow st d) = blocklist st"
    using nf b by (auto simp: processDomain_def Let_def split: prod.splits)
  show "domains (processDomain L allow st d) = domains st"
    using nf dm by (auto simp: processDomain_def Let_def split: prod.splits)
qed

lemma processDomain_domains_cases:
  "domains (processDomain L allow st d) = domains st \<or>
   (domains (processDomain L allow st d) = domains st @ [d] \<and> accepts allow st d
     \<and> int (length (domains st)) \<le> L - LIST_ITEM_SIZE)"
  by (cases "accepts allow st d") (auto simp: processDomain_accept processDomain_reject)

lemma processDomain_blocklist_mono: "set (blocklist st) \<subseteq> set (blocklist (processDomain L allow st d))"
  by (cases "accepts allow st d") (auto simp: processDomain_accept processDomain_reject)

lemma processDomain_sub:
  "set (domains st) \<subseteq> set (blocklist st) \<Longrightarrow>
   set (domains (processDomain L allow st d)) \<subseteq> set (blocklist (processDomain L allow st d))"
  by (cases "accepts allow st d") (auto simp: processDomain_accept processDomain_reject)

lemma foldl_invariant:
  assumes "P st" and "\<And>s d. P s \<Longrightarrow> d \<in> set ds \<Longrightarrow> P (f s d)"
  shows "P (foldl f st ds)"
  using assms by (induction ds arbitrary: st) auto

lemma loop_clean:
  "\<forall>x \<in> set (domains (processBlocklist L allow raw)). cleanOf allow x"
  unfolding processBlocklist_def
proof (rule foldl_invariant)
  show "\<forall>x\<in>set (domains initialState). cleanOf allow x" by (simp add: initialState_def)
next
  fix s :: loop_state and d assume inv: "\<forall>x\<in>set (domains s). cleanOf allow x"
  from processDomain_domains_cases[of L allow s d]
  show "\<forall>x\<in>set (domains (processDomain L allow s d)). cleanOf allow x"
    using inv by (auto simp: accepts_def cleanOf_def)
qed

lemma loop_subset_raw:
  "set (domains (processBlocklist L allow raw)) \<subseteq> set raw"
  unfolding processBlocklist_def
proof (rule foldl_invariant)
  show "set (domains initialState) \<subseteq> set raw" by (simp add: initialState_def)
next
  fix s :: loop_state and d assume inv: "set (domains s) \<subseteq> set raw" and d: "d \<in> set raw"
  from processDomain_domains_cases[of L allow s d]
  show "set (domains (processDomain L allow s d)) \<subseteq> set raw"
    using inv d by auto
qed

lemma ordered_step: assumes "ordered st" shows "ordered (processDomain L allow st x)"
proof -
  from processDomain_domains_cases[of L allow st x]
  show ?thesis
  proof
    assume same: "domains (processDomain L allow st x) = domains st"
    show ?thesis using assms processDomain_blocklist_mono[of st L allow x]
      unfolding ordered_def same by blast
  next
    assume h: "domains (processDomain L allow st x) = domains st @ [x] \<and> accepts allow st x
     \<and> int (length (domains st)) \<le> L - LIST_ITEM_SIZE"
    have sub: "set (domains (processDomain L allow st x)) \<subseteq> set (blocklist (processDomain L allow st x))"
      using assms processDomain_sub unfolding ordered_def by blast
    have "a \<notin> set (drop 1 (extractDomain d))"
      if eq: "domains st @ [x] = us @ a # vs" and d: "d \<in> set vs" for us a vs d
    proof (cases vs rule: rev_cases)
      case Nil
      with d show ?thesis by simp
    next
      case (snoc vs' y)
      with eq have e: "domains st = us @ a # vs'" and y: "y = x" by auto
      show ?thesis
      proof (cases "d \<in> set vs'")
        case True
        with e assms show ?thesis unfolding ordered_def by blast
      next
        case False
        with d snoc y have dx: "d = x" by auto
        have "a \<in> set (blocklist st)" using e assms unfolding ordered_def by auto
        with h dx show ?thesis unfolding accepts_def by blast
      qed
    qed
    with sub h show ?thesis unfolding ordered_def by simp
  qed
qed

lemma loop_ordered: "ordered (processBlocklist L allow raw)"
  unfolding processBlocklist_def
proof (rule foldl_invariant)
  show "ordered initialState" by (simp add: ordered_def initialState_def)
next
  fix s :: loop_state and d assume "ordered s"
  then show "ordered (processDomain L allow s d)" by (rule ordered_step)
qed

lemma loop_bound_step:
  "int (length (domains st)) \<le> max 0 (L - LIST_ITEM_SIZE + 1) \<Longrightarrow>
   int (length (domains (processDomain L allow st d))) \<le> max 0 (L - LIST_ITEM_SIZE + 1)"
  using processDomain_domains_cases[of L allow st d] by auto

lemma loop_bound: "int (length (domains (processBlocklist L allow raw))) \<le> max 0 (L - LIST_ITEM_SIZE + 1)"
  unfolding processBlocklist_def
  by (rule foldl_invariant) (simp_all add: initialState_def loop_bound_step)

lemma loop_full_step: 
  "L - LIST_ITEM_SIZE < int (length (domains st)) \<Longrightarrow> domains (processDomain L allow st d) = domains st"
  using processDomain_domains_cases[of L allow st d] by auto

lemma loop_full:
  "L - LIST_ITEM_SIZE < int (length (domains st)) \<Longrightarrow> domains (foldl (processDomain L allow) st ds) = domains st"
  by (induction ds arbitrary: st) (simp_all add: loop_full_step)




section \<open>The claims about the loop over the raw blocklist\<close>

text \<open>
  C1. When every member of the allowlist is a valid domain and the allowlist holds a
  domain \<open>d\<close> or a strict ancestor of it, \<open>d\<close> is not in the list of domains the loop over
  the raw blocklist returns, whatever the raw blocklist and the limit are.
\<close>
theorem allow_overrides_block_of_descendant:
  assumes valid: "\<forall>a \<in> set allowlist. isValidDomain a"
    and allow: "d \<in> set allowlist \<or> (\<exists>a \<in> set allowlist. strictAncestor a d)"
  shows "d \<notin> set (domains (processBlocklist L allowlist rawBlocklist))"
proof
  assume "d \<in> set (domains (processBlocklist L allowlist rawBlocklist))"
  with loop_clean have clean: "cleanOf allowlist d" by blast
  from allow show False
  proof
    assume "d \<in> set allowlist"
    with clean show False by (simp add: cleanOf_def)
  next
    assume "\<exists>a \<in> set allowlist. strictAncestor a d"
    then obtain a where a: "a \<in> set allowlist" and anc: "strictAncestor a d" by blast
    from valid a have "CHR ''.'' \<in> set a" by (simp add: isValidDomain_dot)
    with anc have "a \<in> set (drop 1 (extractDomain d))" by (rule ancestor_in_items)
    with clean a show False by (auto simp: cleanOf_def)
  qed
qed

text \<open>
  C1 at the allowlist \<open>b.cc\<close> and the raw blocklist \<open>a.b.cc\<close>, \<open>x.yy\<close>: the first is left
  out, the second is kept.
\<close>
theorem allow_overrides_block_of_descendant_witness:
  "isValidDomain ''b.cc'' \<and> strictAncestor ''b.cc'' ''a.b.cc''
   \<and> ''a.b.cc'' \<notin> set (domains (processBlocklist 300000 [''b.cc''] [''a.b.cc'', ''x.yy'']))
   \<and> ''x.yy'' \<in> set (domains (processBlocklist 300000 [''b.cc''] [''a.b.cc'', ''x.yy'']))"
proof -
  have v: "isValidDomain ''b.cc''" by code_simp
  have s: "strictAncestor ''b.cc'' ''a.b.cc''" by code_simp
  have h1: "\<forall>a \<in> set [''b.cc'']. isValidDomain a" using v by simp
  have h2: "''a.b.cc'' \<in> set [''b.cc''] \<or> (\<exists>a \<in> set [''b.cc'']. strictAncestor a ''a.b.cc'')"
    using s by simp
  have n: "''a.b.cc'' \<notin> set (domains (processBlocklist 300000 [''b.cc''] [''a.b.cc'', ''x.yy'']))"
    by (rule allow_overrides_block_of_descendant[OF h1 h2])
  have k: "''x.yy'' \<in> set (domains (processBlocklist 300000 [''b.cc''] [''a.b.cc'', ''x.yy'']))"
    by code_simp
  from v s n k show ?thesis by blast
qed

text \<open>
  C2 as stated fails: a subdomain that comes before its ancestor in the raw blocklist
  is in the final list together with the ancestor.
\<close>
theorem redundant_subdomain_counterexample:
  "strictAncestor ''example.com'' ''ads.example.com''
   \<and> ''example.com'' \<in> set (domains (processBlocklist 300000 [] [''ads.example.com'', ''example.com'']))
   \<and> ''ads.example.com'' \<in> set (domains (processBlocklist 300000 [] [''ads.example.com'', ''example.com'']))"
  by code_simp

text \<open>
  C2, amended. For a raw blocklist of valid domains and a strict ancestor \<open>a\<close> of \<open>d\<close>:
  where \<open>a\<close> stands in the final list, \<open>d\<close> does not stand after it. A domain processed
  after an ancestor that was accepted is left out.
\<close>
theorem no_descendant_after_ancestor:
  assumes valid: "\<forall>x \<in> set rawBlocklist. isValidDomain x"
    and anc: "strictAncestor a d"
    and final: "domains (processBlocklist L allowlist rawBlocklist) = us @ a # vs"
  shows "d \<notin> set vs"
proof
  assume d: "d \<in> set vs"
  have "a \<in> set (domains (processBlocklist L allowlist rawBlocklist))" by (simp add: final)
  with loop_subset_raw have "a \<in> set rawBlocklist" by blast
  with valid have "CHR ''.'' \<in> set a" by (simp add: isValidDomain_dot)
  with anc have "a \<in> set (drop 1 (extractDomain d))" by (rule ancestor_in_items)
  moreover have "a \<notin> set (drop 1 (extractDomain d))"
    using loop_ordered[of L allowlist rawBlocklist] final d unfolding ordered_def by blast
  ultimately show False by simp
qed

text \<open>
  C2, amended, at the raw blocklist \<open>b.cc\<close>, \<open>a.b.cc\<close>, \<open>x.yy\<close>.
\<close>
theorem no_descendant_after_ancestor_witness:
  "isValidDomain ''b.cc'' \<and> isValidDomain ''a.b.cc'' \<and> isValidDomain ''x.yy''
   \<and> strictAncestor ''b.cc'' ''a.b.cc''
   \<and> domains (processBlocklist 300000 [] [''b.cc'', ''a.b.cc'', ''x.yy'']) = [] @ ''b.cc'' # [''x.yy'']
   \<and> ''a.b.cc'' \<notin> set [''x.yy'']"
proof -
  have v: "isValidDomain ''b.cc''" "isValidDomain ''a.b.cc''" "isValidDomain ''x.yy''" by code_simp+
  have s: "strictAncestor ''b.cc'' ''a.b.cc''" by code_simp
  have f: "domains (processBlocklist 300000 [] [''b.cc'', ''a.b.cc'', ''x.yy'']) = [] @ ''b.cc'' # [''x.yy'']"
    by code_simp
  have h: "\<forall>x \<in> set [''b.cc'', ''a.b.cc'', ''x.yy'']. isValidDomain x" using v by simp
  have "''a.b.cc'' \<notin> set [''x.yy'']" by (rule no_descendant_after_ancestor[OF h s f])
  with v s f show ?thesis by blast
qed

text \<open>
  C3 as stated fails. For \<open>a.b.example.com\<close> the loop scans \<open>example.com\<close>, then
  \<open>b.example.com\<close>, then the domain itself, and never \<open>com\<close>. With \<open>b.example.com\<close>
  allowed and \<open>example.com\<close> blocked, the scan in the order of the claim ends at the
  allowed ancestor and counts the domain as allowed; the loop ends at the blocked one
  and counts a duplicate.
\<close>
theorem ancestor_scan_order_counterexample:
  "strictAncestorsSpec ''a.b.example.com'' = [''b.example.com'', ''example.com'', ''com'']
   \<and> drop 1 (extractDomain ''a.b.example.com'') = [''example.com'', ''b.example.com'', ''a.b.example.com'']
   \<and> blocklist (processBlocklist 300000 [''b.example.com''] [''example.com'']) = [''example.com'']
   \<and> allowed (snd (checkItems [''b.example.com''] (strictAncestorsSpec ''a.b.example.com'')
         (processBlocklist 300000 [''b.example.com''] [''example.com'']))) = 1
   \<and> allowed (processBlocklist 300000 [''b.example.com''] [''example.com'', ''a.b.example.com'']) = 0
   \<and> duplicates (processBlocklist 300000 [''b.example.com''] [''example.com'', ''a.b.example.com'']) = 1"
  by code_simp

text \<open>
  C3, amended. For a domain \<open>d\<close> that is neither in the allowlist nor in the block set,
  the loop scans the suffixes of \<open>d\<close> of at least two labels, the shortest first and
  \<open>d\<close> itself last, never the last label alone. It stops at the first one that is in
  the allowlist (\<open>d\<close> counts as allowed) or else in the block set (\<open>d\<close> counts as a
  duplicate); with no such suffix \<open>d\<close> enters the block set, and the output unless the
  output is longer than the limit less the chunk size.
\<close>
theorem ancestor_scan:
  assumes "d \<notin> set allowlist" and "d \<notin> set (blocklist st)"
  shows "drop 1 (extractDomain d)
           = map (\<lambda>i. join_with ''.'' (drop i (split_on CHR ''.'' d)))
               (rev [0..<length (split_on CHR ''.'' d) - 1])
     \<and> processDomain L allowlist st d =
         (case find (\<lambda>item. item \<in> set allowlist \<or> item \<in> set (blocklist st))
                 (drop 1 (extractDomain d)) of
            Some item \<Rightarrow>
              if item \<in> set allowlist
              then st\<lparr>processed := processed st + 1, allowed := allowed st + 1\<rparr>
              else st\<lparr>processed := processed st + 1, duplicates := duplicates st + 1\<rparr>
          | None \<Rightarrow>
              if int (length (domains st)) > L - LIST_ITEM_SIZE
              then st\<lparr>processed := processed st + 1, blocklist := blocklist st @ [d]\<rparr>
              else st\<lparr>processed := processed st + 1, blocklist := blocklist st @ [d],
                      domains := domains st @ [d]\<rparr>)"
proof
  show "drop 1 (extractDomain d)
           = map (\<lambda>i. join_with ''.'' (drop i (split_on CHR ''.'' d)))
               (rev [0..<length (split_on CHR ''.'' d) - 1])"
    unfolding extractDomain_items by (simp add: rev_map)
next
  let ?st = "st\<lparr>processed := processed st + 1\<rparr>"
  have c: "checkItems allowlist (drop 1 (extractDomain d)) ?st =
     (case find (\<lambda>item. item \<in> set allowlist \<or> item \<in> set (blocklist st)) (drop 1 (extractDomain d)) of
        None \<Rightarrow> (True, ?st)
      | Some item \<Rightarrow>
          if item \<in> set allowlist then (False, ?st\<lparr>allowed := allowed ?st + 1\<rparr>)
          else (False, ?st\<lparr>duplicates := duplicates ?st + 1\<rparr>))"
    using checkItems_find[of allowlist "drop 1 (extractDomain d)" ?st] by simp
  show "processDomain L allowlist st d =
         (case find (\<lambda>item. item \<in> set allowlist \<or> item \<in> set (blocklist st))
                 (drop 1 (extractDomain d)) of
            Some item \<Rightarrow>
              if item \<in> set allowlist
              then st\<lparr>processed := processed st + 1, allowed := allowed st + 1\<rparr>
              else st\<lparr>processed := processed st + 1, duplicates := duplicates st + 1\<rparr>
          | None \<Rightarrow>
              if int (length (domains st)) > L - LIST_ITEM_SIZE
              then st\<lparr>processed := processed st + 1, blocklist := blocklist st @ [d]\<rparr>
              else st\<lparr>processed := processed st + 1, blocklist := blocklist st @ [d],
                      domains := domains st @ [d]\<rparr>)"
    using assms unfolding processDomain_def Let_def c
    by (simp add: Set_add_def split: option.splits)
qed

text \<open>
  C3, amended, at \<open>a.b.example.com\<close> with \<open>b.example.com\<close> allowed and \<open>example.com\<close>
  blocked.
\<close>
theorem ancestor_scan_witness:
  "''a.b.example.com'' \<notin> set [''b.example.com'']
   \<and> ''a.b.example.com'' \<notin> set (blocklist (processBlocklist 300000 [''b.example.com''] [''example.com'']))
   \<and> drop 1 (extractDomain ''a.b.example.com'') = [''example.com'', ''b.example.com'', ''a.b.example.com'']
   \<and> duplicates (processDomain 300000 [''b.example.com'']
        (processBlocklist 300000 [''b.example.com''] [''example.com'']) ''a.b.example.com'') = 1"
proof -
  let ?st = "processBlocklist 300000 [''b.example.com''] [''example.com'']"
  have h1: "''a.b.example.com'' \<notin> set [''b.example.com'']" by simp
  have h2: "''a.b.example.com'' \<notin> set (blocklist ?st)" by code_simp
  have e: "map (\<lambda>i. join_with ''.'' (drop i (split_on CHR ''.'' ''a.b.example.com'')))
               (rev [0..<length (split_on CHR ''.'' ''a.b.example.com'') - 1])
           = [''example.com'', ''b.example.com'', ''a.b.example.com'']" by code_simp
  note t = ancestor_scan[OF h1 h2, of 300000]
  from t e have d: "drop 1 (extractDomain ''a.b.example.com'') = [''example.com'', ''b.example.com'', ''a.b.example.com'']"
    by simp
  have "duplicates (processDomain 300000 [''b.example.com''] ?st ''a.b.example.com'') = 1"
    by code_simp
  with h1 h2 d show ?thesis by blast
qed

text \<open>
  C4 as stated fails: with a limit of 1001 and the chunk size 1000 the final list has
  two domains, one more than the limit less the chunk size.
\<close>
theorem ceiling_counterexample:
  "\<not> int (length (domains (processBlocklist 1001 [] [''a.bc'', ''d.ef'', ''g.hi''])))
       \<le> 1001 - LIST_ITEM_SIZE"
  by code_simp

text \<open>
  C4, amended. The final list has at most \<open>LIST_ITEM_LIMIT - LIST_ITEM_SIZE + 1\<close>
  domains, and none when that is negative; from a state whose output is longer than
  \<open>LIST_ITEM_LIMIT - LIST_ITEM_SIZE\<close> the loop adds nothing to the output, whatever
  domains follow.
\<close>
theorem ceiling_bound:
  "int (length (domains (processBlocklist L allowlist rawBlocklist))) \<le> max 0 (L - LIST_ITEM_SIZE + 1)
   \<and> (L - LIST_ITEM_SIZE < int (length (domains st)) \<longrightarrow>
        domains (foldl (processDomain L allowlist) st ds) = domains st)"
  by (simp add: loop_bound loop_full)

text \<open>
  C4, amended, at the limit 1001: two domains fill the output and the third is dropped.
\<close>
theorem ceiling_bound_witness:
  "int (length (domains (processBlocklist 1001 [] [''a.bc'', ''d.ef'', ''g.hi'']))) = 2
   \<and> 1001 - LIST_ITEM_SIZE < int (length (domains (processBlocklist 1001 [] [''a.bc'', ''d.ef''])))
   \<and> domains (foldl (processDomain 1001 []) (processBlocklist 1001 [] [''a.bc'', ''d.ef'']) [''g.hi''])
       = domains (processBlocklist 1001 [] [''a.bc'', ''d.ef''])"
proof -
  have a: "int (length (domains (processBlocklist 1001 [] [''a.bc'', ''d.ef'', ''g.hi'']))) = 2"
    by code_simp
  have b: "1001 - LIST_ITEM_SIZE < int (length (domains (processBlocklist 1001 [] [''a.bc'', ''d.ef''])))"
    by code_simp
  from ceiling_bound[of 1001 "[]" "[''a.bc'', ''d.ef'', ''g.hi'']" "processBlocklist 1001 [] [''a.bc'', ''d.ef'']" "[''g.hi'']"] b
  have "domains (foldl (processDomain 1001 []) (processBlocklist 1001 [] [''a.bc'', ''d.ef'']) [''g.hi''])
       = domains (processBlocklist 1001 [] [''a.bc'', ''d.ef''])" by blast
  with a b show ?thesis by blast
qed




section \<open>The claims about normalizeDomain and the feeds\<close>

text \<open>
  C6 as stated fails: each \<open>replace\<close> removes one occurrence, so a second
  normalization of \<open>||||a.bc\<close> removes the \<open>||\<close> that the first one left.
\<close>
theorem normalizeDomain_idempotent_counterexample:
  "normalizeDomain (normalizeDomain ''||||a.bc'' False) False \<noteq> normalizeDomain ''||||a.bc'' False"
  by code_simp

text \<open>
  C6, amended. Whenever the normalized string is a valid domain, which is what the
  pipeline keeps, normalizing it again changes nothing, for the allowlist and the
  blocklist variant alike.
\<close>
theorem normalizeDomain_idempotent_on_valid:
  assumes "isValidDomain (normalizeDomain s b)"
  shows "normalizeDomain (normalizeDomain s b) b = normalizeDomain s b"
  using assms by (rule normalizeDomain_valid)

text \<open>
  C6, amended, at the hosts-file line \<open>0.0.0.0 a.bc\<close>.
\<close>
theorem normalizeDomain_idempotent_on_valid_witness:
  "isValidDomain (normalizeDomain ''0.0.0.0 a.bc'' False)
   \<and> normalizeDomain ''0.0.0.0 a.bc'' False = ''a.bc''
   \<and> normalizeDomain (normalizeDomain ''0.0.0.0 a.bc'' False) False = normalizeDomain ''0.0.0.0 a.bc'' False"
proof -
  have v: "isValidDomain (normalizeDomain ''0.0.0.0 a.bc'' False)" by code_simp
  have e: "normalizeDomain ''0.0.0.0 a.bc'' False = ''a.bc''" by code_simp
  from normalizeDomain_idempotent_on_valid[OF v] v e show ?thesis by blast
qed

lemma set_foldl_Set_add: "set (foldl Set_add acc xs) = set acc \<union> set xs"
  by (induction xs arbitrary: acc) (auto simp: Set_add_def)

lemma set_Set_new: "set (Set_new xs) = set xs"
  by (simp add: Set_new_def set_foldl_Set_add)

lemma length_removeFirst: "length (removeFirst pat s) \<le> length s"
  by (induction s) auto

lemma length_re_removeFirst:
  assumes "consumes Q m"
  shows "length (re_removeFirst m prev s) \<le> length s"
proof (induction s arbitrary: prev)
  case Nil
  show ?case
  proof (cases "m (prev, [])")
    case Nil
    then show ?thesis by simp
  next
    case (Cons y ys)
    then have "y \<in> set (m (prev, []))" by simp
    from consumesD[OF assms this] have "snd y = []" by simp
    with Cons show ?thesis by simp
  qed
next
  case (Cons c cs)
  show ?case
  proof (cases "m (prev, c # cs)")
    case Nil
    with Cons.IH[of "Some c"] show ?thesis by simp
  next
    case (Cons y ys)
    then have "y \<in> set (m (prev, c # cs))" by simp
    from consumesD[OF assms this] obtain u where "c # cs = u @ snd y" by auto
    then have "length (snd y) \<le> length (c # cs)" by (metis length_append le_add2)
    with Cons show ?thesis by simp
  qed
qed

lemma length_normalizeDomain: "length (normalizeDomain s b) \<le> length s"
proof -
  have a: "length (removeFirst pat x) \<le> length x" for pat x by (rule length_removeFirst)
  have i: "length (re_removeFirst ipPrefix None x) \<le> length x" for x
    by (rule length_re_removeFirst[OF consumes_ipPrefix])
  have init: "length (if b then removeFirst ''@@||'' s else s) \<le> length s" by (simp add: a)
  have "length (removeFirst ''^'' (removeFirst ''*.'' (removeFirst ''^$important''
              (removeFirst ''||'' (re_removeFirst ipPrefix None (if b then removeFirst ''@@||'' s else s))))))
        \<le> length (if b then removeFirst ''@@||'' s else s)"
    by (meson a i order_trans)
  with init show ?thesis unfolding normalizeDomain_def Let_def by (rule order_trans[rotated])
qed

lemma normalizeDomain_empty: "normalizeDomain [] b = []"
  using length_normalizeDomain[of "[]" b] by simp

text \<open>
  C10. normalizeDomain is a function from strings to strings: for every input it returns
  a string no longer than the input, the empty string for the empty string, and has no
  other outcome. What rejects a line is the pipeline around it: a domain is in the set
  fetchDomains builds exactly when it is the normal form of a trimmed line that is
  neither empty nor a comment, and that normal form is a valid domain.
\<close>
theorem normalizeDomain_never_rejects:
  "length (normalizeDomain s b) \<le> length s
   \<and> normalizeDomain [] b = []
   \<and> (d \<in> set (parseDomains txt b) \<longleftrightarrow>
        (\<exists>line \<in> set (split_on (CHR 0x0A) txt).
           trim line \<noteq> [] \<and> \<not> isComment (trim line)
           \<and> d = normalizeDomain (trim line) b \<and> isValidDomain d))"
proof -
  have "d \<in> set (parseDomains txt b) \<longleftrightarrow>
        (\<exists>line \<in> set (split_on (CHR 0x0A) txt).
           trim line \<noteq> [] \<and> \<not> isComment (trim line)
           \<and> d = normalizeDomain (trim line) b \<and> isValidDomain d)"
    unfolding parseDomains_def set_Set_new by auto
  then show ?thesis by (simp add: length_normalizeDomain normalizeDomain_empty)
qed

text \<open>
  C10 at a comment line, an empty line, a line that is no domain and a line of a domain:
  normalizeDomain returns the comment and the line that is no domain as they are, and
  the filters keep the domain alone.
\<close>
theorem normalizeDomain_never_rejects_witness:
  "normalizeDomain ''# ads'' False = ''# ads'' \<and> isComment ''# ads''
   \<and> normalizeDomain ''no domain'' False = ''no domain'' \<and> \<not> isValidDomain ''no domain''
   \<and> length (normalizeDomain ''||a.bc^'' False) \<le> length ''||a.bc^''
   \<and> ''a.bc'' \<in> set (parseDomains ''# ads\<newline>\<newline>no domain\<newline> ||a.bc^ '' False)
   \<and> ''# ads'' \<notin> set (parseDomains ''# ads\<newline>\<newline>no domain\<newline> ||a.bc^ '' False)"
proof -
  let ?txt = "''# ads\<newline>\<newline>no domain\<newline> ||a.bc^ ''"
  have e: "normalizeDomain ''# ads'' False = ''# ads''" "isComment ''# ads''"
    "normalizeDomain ''no domain'' False = ''no domain''" "\<not> isValidDomain ''no domain''"
    by code_simp+
  note t = normalizeDomain_never_rejects[of "''||a.bc^''" False _ ?txt]
  have l: "length (normalizeDomain ''||a.bc^'' False) \<le> length ''||a.bc^''" using t by blast
  have p: "parseDomains ?txt False = [''a.bc'']" by code_simp
  have i: "''a.bc'' \<in> set (parseDomains ?txt False)" unfolding p by simp
  have n: "''# ads'' \<notin> set (parseDomains ?txt False)" unfolding p by simp
  from e l i n show ?thesis by blast
qed

section \<open>The claim about the rule expression\<close>


lemma wirefilter_foldl:
  "foldl (\<lambda>previous current.
            if \<not> startsWith (objectName current) ''CGPS List'' then previous
            else previous @ c current @ '' or '') acc ls
   = acc @ concat (map (\<lambda>l. c l @ '' or '') (filter isCgpsList ls))"
  by (induction ls arbitrary: acc) (auto simp: isCgpsList_def)

lemma sliceOffEnd_append: "k \<le> length ys \<Longrightarrow> sliceOffEnd k (xs @ ys) = xs @ sliceOffEnd k ys"
  by (simp add: sliceOffEnd_def)

lemma sliceOffEnd_clauses:
  "sliceOffEnd 4 (concat (map (\<lambda>l. c l @ '' or '') xs)) = join_with '' or '' (map c xs)"
proof (induction xs)
  case Nil
  then show ?case by (simp add: sliceOffEnd_def)
next
  case (Cons x xs)
  show ?case
  proof (cases xs)
    case Nil
    then show ?thesis by (simp add: sliceOffEnd_def)
  next
    case (Cons y ys)
    have len: "4 \<le> length (concat (map (\<lambda>l. c l @ '' or '') xs))" using Cons by simp
    have "sliceOffEnd 4 (concat (map (\<lambda>l. c l @ '' or '') (x # xs)))
          = (c x @ '' or '') @ sliceOffEnd 4 (concat (map (\<lambda>l. c l @ '' or '') xs))"
      using sliceOffEnd_append[OF len, of "c x @ '' or ''"] by simp
    also have "\<dots> = (c x @ '' or '') @ join_with '' or '' (map c xs)"
      by (simp only: Cons.IH)
    also have "\<dots> = join_with '' or '' (map c (x # xs))" using Cons by simp
    finally show ?thesis .
  qed
qed

text \<open>
  C7 as stated fails: for the lists with the ids 10 and 20 the expression is not the
  string of the claim.
\<close>
theorem dns_expression_counterexample:
  "sliceOffEnd 4 (wirefilterDNSExpression
      [RemoteObject (IdNum 10) ''CGPS List - Chunk 1'', RemoteObject (IdNum 20) ''CGPS List - Chunk 2''])
   \<noteq> ''any(dns.domains[*] in $10) or any(dns.domains[*] in $20)''"
  by code_simp

text \<open>
  C7, amended. The expression of the DNS rule is the clauses of the lists whose names
  start with \<open>CGPS List\<close>, in order, joined with \<open>" or "\<close>; each clause is
  \<open>" any(dns.domains[*] in $id)"\<close> and starts with a space, so that two spaces stand
  between \<open>or\<close> and the next clause. With no such list the expression is empty.
\<close>
theorem dns_expression:
  "sliceOffEnd 4 (wirefilterDNSExpression remoteLists)
   = join_with '' or ''
       (map (\<lambda>l. '' any(dns.domains[*] in $'' @ idToString (objectId l) @ '')'')
          (filter isCgpsList remoteLists))"
proof -
  let ?c = "\<lambda>l. '' any(dns.domains[*] in $'' @ idToString (objectId l) @ '')''"
  have step: "(\<lambda>previous current.
              if \<not> startsWith (objectName current) ''CGPS List'' then previous
              else previous @ '' any(dns.domains[*] in $'' @ idToString (objectId current) @ '') or '')
      = (\<lambda>previous current.
              if \<not> startsWith (objectName current) ''CGPS List'' then previous
              else previous @ ?c current @ '' or '')"
    by (intro ext) simp
  have "wirefilterDNSExpression remoteLists
        = [] @ concat (map (\<lambda>l. ?c l @ '' or '') (filter isCgpsList remoteLists))"
    unfolding wirefilterDNSExpression_def step by (rule wirefilter_foldl)
  then have "sliceOffEnd 4 (wirefilterDNSExpression remoteLists)
        = sliceOffEnd 4 (concat (map (\<lambda>l. ?c l @ '' or '') (filter isCgpsList remoteLists)))"
    by simp
  also have "\<dots> = join_with '' or '' (map ?c (filter isCgpsList remoteLists))"
    by (rule sliceOffEnd_clauses)
  finally show ?thesis .
qed

text \<open>
  C7, amended, at the ids 10 and 20, with a list of another name between them.
\<close>
theorem dns_expression_witness:
  "sliceOffEnd 4 (wirefilterDNSExpression
      [RemoteObject (IdNum 10) ''CGPS List - Chunk 1'', RemoteObject (IdNum 7) ''Other'',
       RemoteObject (IdNum 20) ''CGPS List - Chunk 2''])
   = '' any(dns.domains[*] in $10) or  any(dns.domains[*] in $20)''"
proof -
  have "join_with '' or ''
       (map (\<lambda>l. '' any(dns.domains[*] in $'' @ idToString (objectId l) @ '')'')
          (filter isCgpsList [RemoteObject (IdNum 10) ''CGPS List - Chunk 1'', RemoteObject (IdNum 7) ''Other'',
       RemoteObject (IdNum 20) ''CGPS List - Chunk 2'']))
     = '' any(dns.domains[*] in $10) or  any(dns.domains[*] in $20)''" by code_simp
  then show ?thesis by (simp only: dns_expression)
qed



section \<open>The claims about processLists\<close>

text \<open>
  C8. When the environment is valid and the loop ends with no domain to block,
  processLists returns without an error and with no effect at all: no request to the
  gateway, so no rule or list is deleted, created or updated, and no notification; the
  script ends with the exit code 0.
\<close>
theorem empty_result_no_remote_mutation:
  assumes env: "validateEnvironment env = Inr ()"
    and empty: "domains (finalState cfg fetch) = []"
  shows "processLists cfg env fetch gw = (Inr (), []) \<and> runScript cfg env fetch gw = (0, [])"
proof -
  obtain allowlist rawBlocklist where f: "fetchLists cfg fetch = (allowlist, rawBlocklist)"
    by (cases "fetchLists cfg fetch")
  with empty have "domains (processBlocklist (LIST_ITEM_LIMIT cfg) allowlist rawBlocklist) = []"
    by (simp add: finalState_def)
  with env f have p: "processLists cfg env fetch gw = (Inr (), [])"
    by (simp add: processLists_def)
  then show ?thesis by (simp add: runScript_def)
qed

text \<open>
  C8 where the allowlist holds \<open>b.cc\<close> and the blocklist \<open>a.b.cc\<close>, against a gateway
  that would fail every request.
\<close>
theorem empty_result_no_remote_mutation_witness:
  "validateEnvironment (\<lambda>key. Some ''set'') = Inr ()
   \<and> domains (finalState
        \<lparr>LIST_ITEM_LIMIT = 300000, BLOCK_BASED_ON_SNI = True, DEBUG = False,
         USER_DEFINED_ALLOWLIST_URLS = Some [''allow''], RECOMMENDED_ALLOWLIST_URLS = [],
         USER_DEFINED_BLOCKLIST_URLS = Some [''block''], RECOMMENDED_BLOCKLIST_URLS = []\<rparr>
        (\<lambda>url. Resolved \<lparr>ok = True, status = 200, statusText = ''OK'',
           responseText = Inr (if url = ''allow'' then ''b.cc'' else ''a.b.cc'')\<rparr>)) = []
   \<and> processLists
        \<lparr>LIST_ITEM_LIMIT = 300000, BLOCK_BASED_ON_SNI = True, DEBUG = False,
         USER_DEFINED_ALLOWLIST_URLS = Some [''allow''], RECOMMENDED_ALLOWLIST_URLS = [],
         USER_DEFINED_BLOCKLIST_URLS = Some [''block''], RECOMMENDED_BLOCKLIST_URLS = []\<rparr>
        (\<lambda>key. Some ''set'')
        (\<lambda>url. Resolved \<lparr>ok = True, status = 200, statusText = ''OK'',
           responseText = Inr (if url = ''allow'' then ''b.cc'' else ''a.b.cc'')\<rparr>)
        (\<lambda>trace call. Inl (Error ''unreachable'')) = (Inr (), [])"
proof -
  let ?cfg = "\<lparr>LIST_ITEM_LIMIT = 300000, BLOCK_BASED_ON_SNI = True, DEBUG = False,
         USER_DEFINED_ALLOWLIST_URLS = Some [''allow''], RECOMMENDED_ALLOWLIST_URLS = [],
         USER_DEFINED_BLOCKLIST_URLS = Some [''block''], RECOMMENDED_BLOCKLIST_URLS = []\<rparr>"
  let ?fetch = "\<lambda>url. Resolved \<lparr>ok = True, status = 200, statusText = ''OK'',
           responseText = Inr (if url = ''allow'' then ''b.cc'' else ''a.b.cc'')\<rparr>"
  have h1: "validateEnvironment (\<lambda>key. Some ''set'') = Inr ()" by code_simp
  have h2: "domains (finalState ?cfg ?fetch) = []" by code_simp
  from empty_result_no_remote_mutation[OF h1 h2] h1 h2 show ?thesis by blast
qed

lemma parseDomains_empty: "parseDomains [] b = []"
  by (simp add: parseDomains_def trim_def Set_new_def)

lemma fetchDomains_fails: "fetchFails fetch url \<Longrightarrow> fetchDomains fetch url b = []"
  by (auto simp: fetchFails_def fetchDomains_def fetchDomainsTry_def split: fetch_result.splits)

lemma fetchDomains_emptyFeed: "fetch url = emptyFeed \<Longrightarrow> fetchDomains fetch url b = []"
  by (simp add: fetchDomains_def fetchDomainsTry_def emptyFeed_def parseDomains_empty)

lemma fetchDomains_replace:
  assumes "fetchFails fetch url"
  shows "fetchDomains (fetch(url := emptyFeed)) u b = fetchDomains fetch u b"
proof (cases "u = url")
  case True
  then show ?thesis using assms by (simp add: fetchDomains_fails fetchDomains_emptyFeed)
next
  case False
  then show ?thesis by (simp add: fetchDomains_def fetchDomainsTry_def)
qed

lemma fetchLists_replace:
  assumes "fetchFails fetch url"
  shows "fetchLists cfg (fetch(url := emptyFeed)) = fetchLists cfg fetch"
  by (simp add: fetchLists_def fetchAndProcessUrls_def fetchDomains_replace[OF assms])

text \<open>
  C9 as stated fails: with the allowlist feed failing, processLists goes on, creates
  the list and the rule from the blocklist feed and returns without an error.
\<close>
theorem failed_fetch_counterexample:
  "fetchFails (\<lambda>url. if url = ''block'' then Resolved \<lparr>ok = True, status = 200, statusText = ''OK'',
                       responseText = Inr ''a.bc''\<rparr> else Rejected (Error ''network'')) ''allow''
   \<and> processLists
        \<lparr>LIST_ITEM_LIMIT = 300000, BLOCK_BASED_ON_SNI = False, DEBUG = False,
         USER_DEFINED_ALLOWLIST_URLS = Some [''allow''], RECOMMENDED_ALLOWLIST_URLS = [],
         USER_DEFINED_BLOCKLIST_URLS = Some [''block''], RECOMMENDED_BLOCKLIST_URLS = []\<rparr>
        (\<lambda>key. Some ''set'')
        (\<lambda>url. if url = ''block'' then Resolved \<lparr>ok = True, status = 200, statusText = ''OK'',
                       responseText = Inr ''a.bc''\<rparr> else Rejected (Error ''network''))
        (\<lambda>trace call. Inr (Some []))
       = (Inr (),
          [Request GetRules, Request GetLists,
           Request (PostList ''CGPS List - Chunk 1'' [''a.bc'']),
           Request GetLists, Request GetRules,
           Request (PostRule (RulePayload ''CGPS Filter Lists'' [''dns''] [])),
           Telegram (UpdateComplete 1 0 1 1) False])"
  by code_simp

text \<open>
  C9, amended. A feed whose fetch fails, by a network error or a status that is not a
  success, gives fetchDomains the empty set: the error is caught there, and the whole
  run is the run in which that feed answers with an empty body.
\<close>
theorem failed_fetch_absorbed:
  assumes "fetchFails fetch url"
  shows "fetchDomains fetch url isAllowlist = []
     \<and> processLists cfg env fetch gw = processLists cfg env (fetch(url := emptyFeed)) gw"
proof
  show "fetchDomains fetch url isAllowlist = []" using assms by (rule fetchDomains_fails)
  show "processLists cfg env fetch gw = processLists cfg env (fetch(url := emptyFeed)) gw"
    unfolding processLists_def fetchLists_replace[OF assms] by (rule refl)
qed

text \<open>
  C9, amended, at an allowlist feed that answers 503.
\<close>
theorem failed_fetch_absorbed_witness:
  "fetchFails (\<lambda>url. if url = ''block'' then Resolved \<lparr>ok = True, status = 200, statusText = ''OK'',
                       responseText = Inr ''a.bc''\<rparr>
                     else Resolved \<lparr>ok = False, status = 503, statusText = ''Service Unavailable'',
                       responseText = Inr ''b.cc''\<rparr>) ''allow''
   \<and> fetchDomains (\<lambda>url. if url = ''block'' then Resolved \<lparr>ok = True, status = 200, statusText = ''OK'',
                       responseText = Inr ''a.bc''\<rparr>
                     else Resolved \<lparr>ok = False, status = 503, statusText = ''Service Unavailable'',
                       responseText = Inr ''b.cc''\<rparr>) ''allow'' True = []"
proof -
  let ?fetch = "\<lambda>url. if url = ''block'' then Resolved \<lparr>ok = True, status = 200, statusText = ''OK'',
                       responseText = Inr ''a.bc''\<rparr>
                     else Resolved \<lparr>ok = False, status = 503, statusText = ''Service Unavailable'',
                       responseText = Inr ''b.cc''\<rparr>"
  have h: "fetchFails ?fetch ''allow''" by code_simp
  from failed_fetch_absorbed[OF h] h show ?thesis by blast
qed

end
